theory Spec2Isabelle
  imports Complex_Main "HOL-Library.Word" "HOL-Library.Sublist"
begin

unbundle bit_operations_syntax

section \<open>Machine types\<close>

text \<open>
  \<open>uint32_t\<close> and \<open>uint64_t\<close> are words, so that \<open>+\<close>, \<open>-\<close> and \<open>*\<close> wrap as in C.
  The loop counters, the exponents and the repetition counts are C \<open>int\<close>s that stay
  between 0 and 100; they are natural numbers here. \<open>size_t\<close> arguments are natural
  numbers, \<open>off_t\<close> and \<open>ssize_t\<close> (64-bit signed on the LP64 target) are integers.
\<close>

type_synonym u32 = "32 word"
type_synonym u64 = "64 word"

section \<open>Configuration (Benchmark.cpp, lines 21-38)\<close>

definition minExp :: nat where
  "minExp = 9"

definition maxExp :: nat where
  "maxExp = 28"

text \<open>
  \<open>const double smallBigThreshold = 1e6\<close>. The value is an integer that a double holds
  exactly, and every \<open>uint32_t\<close> converts to double exactly, so the comparison of a
  size with the threshold is the comparison of the two real numbers.
\<close>

definition smallBigThreshold :: real where
  "smallBigThreshold = 1000000"

definition smallCount :: nat where
  "smallCount = 100"

definition largeCount :: nat where
  "largeCount = 3"

text \<open>\<open>const int maxSize = 1 << maxExp\<close>, the size of the write buffer.\<close>

definition maxSize :: int where
  "maxSize = push_bit maxExp 1"

section \<open>Values of type double\<close>

text \<open>
  The numbers printed in a result row are computed in double arithmetic, through
  \<open>Cycles::toSeconds\<close>. They are kept as the expression the code evaluates: nothing is
  assumed about rounding, nor about the conversion factor of the cycle counter.
\<close>

datatype double =
    OfU32 u32
  | OfInt nat
  | Lit real
  | ToSeconds u64
  | Div double double

section \<open>The environment\<close>

text \<open>
  The flags of \<open>open\<close> come from \<open>fcntl.h\<close>; \<open>|\<close> on them is the union of the sets.
\<close>

datatype oflag = O_WRONLY | O_RDWR | O_CREAT | O_DIRECT | O_SYNC

text \<open>
  What the platform returns is given by an environment: the result of the k-th call of
  each system or library call, and the value of the k-th reading of the cycle counter.
  Every call whose result the platform decides is there, also those whose result the
  code does not look at (\<open>fsync\<close>, \<open>close\<close>, \<open>std::remove\<close>).
\<close>

record env =
  rdtsc_val :: "nat \<Rightarrow> u64"
  memalign_res :: "nat \<Rightarrow> int"
  open_res :: "nat \<Rightarrow> int"
  pwrite_res :: "nat \<Rightarrow> int"
  write_res :: "nat \<Rightarrow> int"
  pread_res :: "nat \<Rightarrow> int"
  fsync_res :: "nat \<Rightarrow> int"
  close_res :: "nat \<Rightarrow> int"
  remove_res :: "nat \<Rightarrow> int"

text \<open>The number of calls made so far, for each of them.\<close>

record calls =
  n_rdtsc :: nat
  n_memalign :: nat
  n_open :: nat
  n_pwrite :: nat
  n_write :: nat
  n_pread :: nat
  n_fsync :: nat
  n_close :: nat
  n_remove :: nat

definition no_calls :: calls where
  "no_calls = \<lparr>n_rdtsc = 0, n_memalign = 0, n_open = 0, n_pwrite = 0, n_write = 0,
     n_pread = 0, n_fsync = 0, n_close = 0, n_remove = 0\<rparr>"

text \<open>What \<open>printf\<close> is called with, one constructor for each call in the source.\<close>

datatype printed =
    WriteBanner string
  | ReadBanner string
  | ExtraComment string
  | WriteColumns
  | ReadColumns
  | WriteRow u32 double double double
  | ReadRow u32 double double
  | ShortRead u32 u32
  | BlankLine
  | UsageAbout
  | UsageLine

text \<open>
  The observable actions of the program, in the order they happen. A system call is
  recorded with its arguments and, last, the value it returned.
\<close>

datatype event =
    EPrintf printed
  | EPerror string
  | ESetlocale
  | EMemalign nat nat int
  | EFree
  | EOpen string "oflag set" int
  | EClose int int
  | ERemove string int
  | EPwrite int nat int int
  | EWrite int nat int
  | EPread int nat int int
  | EFsync int int
  | EExit int

definition rdtsc :: "env \<Rightarrow> calls \<Rightarrow> u64 \<times> calls" where
  "rdtsc env c = (rdtsc_val env (n_rdtsc c), c\<lparr>n_rdtsc := Suc (n_rdtsc c)\<rparr>)"

definition posix_memalign :: "env \<Rightarrow> calls \<Rightarrow> int \<times> calls" where
  "posix_memalign env c = (memalign_res env (n_memalign c), c\<lparr>n_memalign := Suc (n_memalign c)\<rparr>)"

definition sys_open :: "env \<Rightarrow> calls \<Rightarrow> int \<times> calls" where
  "sys_open env c = (open_res env (n_open c), c\<lparr>n_open := Suc (n_open c)\<rparr>)"

definition pwrite :: "env \<Rightarrow> calls \<Rightarrow> int \<times> calls" where
  "pwrite env c = (pwrite_res env (n_pwrite c), c\<lparr>n_pwrite := Suc (n_pwrite c)\<rparr>)"

definition sys_write :: "env \<Rightarrow> calls \<Rightarrow> int \<times> calls" where
  "sys_write env c = (write_res env (n_write c), c\<lparr>n_write := Suc (n_write c)\<rparr>)"

definition pread :: "env \<Rightarrow> calls \<Rightarrow> int \<times> calls" where
  "pread env c = (pread_res env (n_pread c), c\<lparr>n_pread := Suc (n_pread c)\<rparr>)"

definition fsync :: "env \<Rightarrow> calls \<Rightarrow> int \<times> calls" where
  "fsync env c = (fsync_res env (n_fsync c), c\<lparr>n_fsync := Suc (n_fsync c)\<rparr>)"

definition sys_close :: "env \<Rightarrow> calls \<Rightarrow> int \<times> calls" where
  "sys_close env c = (close_res env (n_close c), c\<lparr>n_close := Suc (n_close c)\<rparr>)"

definition std_remove :: "env \<Rightarrow> calls \<Rightarrow> int \<times> calls" where
  "std_remove env c = (remove_res env (n_remove c), c\<lparr>n_remove := Suc (n_remove c)\<rparr>)"

section \<open>The write sweep (benchmark_write, lines 47-123)\<close>

text \<open>Line 89: the repetition count of a write size.\<close>

definition write_count :: "u32 \<Rightarrow> nat" where
  "write_count writeSize =
     (if real (unat writeSize) > smallBigThreshold then largeCount else smallCount)"

text \<open>The variables the inner loop updates (lines 86 and 88).\<close>

record wvars =
  filePos :: u32
  writeCycles :: u64
  fsyncCycles :: u64

text \<open>
  Lines 92-105, one repetition. A function of this development returns the events it
  caused, then \<open>Inl\<close> the argument of \<open>exit\<close> or \<open>Inr\<close> its result, then the call
  counts. \<open>writeSize\<close> is compared with the \<open>ssize_t\<close> result as a 64-bit signed
  number, so a result of -1 differs from every size.
\<close>

definition write_once :: "env \<Rightarrow> int \<Rightarrow> u32 \<Rightarrow> wvars \<Rightarrow> calls \<Rightarrow> event list \<times> (int + wvars) \<times> calls" where
  "write_once env outputfile writeSize v c =
     (let (startWrite, c1) = rdtsc env c;
          (n, c2) = pwrite env c1;
          wr = EPwrite outputfile (unat writeSize) (int (unat (filePos v))) n
      in if int (unat writeSize) \<noteq> n
         then ([wr, EPerror ''Write'', EExit (- 1)], Inl (- 1), c2)
         else
           (let v1 = v\<lparr>filePos := filePos v + writeSize\<rparr>;
                (fsyncStart, c3) = rdtsc env c2;
                (r, c4) = fsync env c3;
                (stop, c5) = rdtsc env c4;
                v2 = v1\<lparr>writeCycles := writeCycles v1 + (fsyncStart - startWrite)\<rparr>;
                v3 = v2\<lparr>fsyncCycles := fsyncCycles v2 + (stop - fsyncStart)\<rparr>
            in ([wr, EFsync outputfile r], Inr v3, c5)))"

text \<open>Line 91: \<open>for (int i = 0; i < count; ++i)\<close>.\<close>

function write_loop :: "env \<Rightarrow> int \<Rightarrow> u32 \<Rightarrow> nat \<Rightarrow> nat \<Rightarrow> wvars \<Rightarrow> calls \<Rightarrow> event list \<times> (int + wvars) \<times> calls" where
  "write_loop env outputfile writeSize count i v c =
     (if i < count
      then (case write_once env outputfile writeSize v c of
              (evs, Inl code, c') \<Rightarrow> (evs, Inl code, c')
            | (evs, Inr v', c') \<Rightarrow>
                (case write_loop env outputfile writeSize count (Suc i) v' c' of
                   (evs', res, c'') \<Rightarrow> (evs @ evs', res, c'')))
      else ([], Inr v, c))"
  by pat_completeness auto
termination
  by (relation "measure (\<lambda>(env, outputfile, writeSize, count, i, v, c). count - i)") auto

text \<open>Lines 111-116: the result row of a write size.\<close>

definition write_row :: "u32 \<Rightarrow> nat \<Rightarrow> wvars \<Rightarrow> printed" where
  "write_row writeSize count v =
     (let totalCycles = writeCycles v + fsyncCycles v
      in WriteRow writeSize
           (Div (Div (OfU32 writeSize) (Div (ToSeconds totalCycles) (OfInt count))) (Lit 1000000))
           (Div (ToSeconds (writeCycles v)) (OfInt count))
           (Div (ToSeconds (fsyncCycles v)) (OfInt count)))"

text \<open>
  Lines 80-116: the body of the loop over the exponents. The results of \<open>close\<close>
  (line 108) and of \<open>std::remove\<close> (line 109) are dropped.
\<close>

definition write_size :: "env \<Rightarrow> string \<Rightarrow> oflag set \<Rightarrow> nat \<Rightarrow> calls \<Rightarrow> event list \<times> (int + unit) \<times> calls" where
  "write_size env filename extraFileOps e c =
     (let (outputfile, c1) = sys_open env c;
          op = EOpen filename ({O_WRONLY, O_CREAT} \<union> extraFileOps) outputfile
      in if - 1 = outputfile
         then ([op, EPerror ''Opening file failed'', EExit (- 1)], Inl (- 1), c1)
         else
           (let writeSize = (push_bit e 1 :: u32);
                count = write_count writeSize
            in case write_loop env outputfile writeSize count 0
                      \<lparr>filePos = 0, writeCycles = 0, fsyncCycles = 0\<rparr> c1 of
                 (evs, Inl code, c2) \<Rightarrow> (op # evs, Inl code, c2)
               | (evs, Inr v, c2) \<Rightarrow>
                   (let (closed, c3) = sys_close env c2;
                        (removed, c4) = std_remove env c3
                    in (op # evs @ [EClose outputfile closed, ERemove filename removed,
                                    EPrintf (write_row writeSize count v)], Inr (), c4))))"

text \<open>Line 79: \<open>for (int e = minExp; e <= maxExp; ++e)\<close>.\<close>

function write_sizes :: "env \<Rightarrow> string \<Rightarrow> oflag set \<Rightarrow> nat \<Rightarrow> calls \<Rightarrow> event list \<times> (int + unit) \<times> calls" where
  "write_sizes env filename extraFileOps e c =
     (if e \<le> maxExp
      then (case write_size env filename extraFileOps e c of
              (evs, Inl code, c') \<Rightarrow> (evs, Inl code, c')
            | (evs, Inr u, c') \<Rightarrow>
                (case write_sizes env filename extraFileOps (Suc e) c' of
                   (evs', res, c'') \<Rightarrow> (evs @ evs', res, c'')))
      else ([], Inr (), c))"
  by pat_completeness auto
termination
  by (relation "measure (\<lambda>(env, filename, extraFileOps, e, c). Suc maxExp - e)") auto

text \<open>
  Lines 51-66: what is printed before the sweep. The comment is optional
  (\<open>extraComments\<close> may be NULL).
\<close>

definition write_intro :: "string \<Rightarrow> string option \<Rightarrow> event list" where
  "write_intro filename extraComments =
     [EPrintf (WriteBanner filename)] @
     (case extraComments of None \<Rightarrow> [] | Some s \<Rightarrow> [EPrintf (ExtraComment s)]) @
     [ESetlocale, EPrintf WriteColumns]"

definition benchmark_write :: "env \<Rightarrow> string \<Rightarrow> string option \<Rightarrow> oflag set \<Rightarrow> calls \<Rightarrow> event list \<times> (int + unit) \<times> calls" where
  "benchmark_write env filename extraComments extraFileOps c =
     (let (failed, c1) = posix_memalign env c;
          al = EMemalign 512 (nat maxSize) failed
      in if failed \<noteq> 0
         then (write_intro filename extraComments @ [al, EPerror ''Memalign failed'', EExit (- 1)],
               Inl (- 1), c1)
         else
           (case write_sizes env filename extraFileOps minExp c1 of
              (evs, Inl code, c2) \<Rightarrow> (write_intro filename extraComments @ al # evs, Inl code, c2)
            | (evs, Inr u, c2) \<Rightarrow>
                (write_intro filename extraComments @ al # evs @ [EPrintf BlankLine, EFree],
                 Inr (), c2)))"

section \<open>The read sweep (benchmark_read, lines 132-214)\<close>

text \<open>
  Line 153: the size of the read buffer and of the file written before the sweep. The
  products are \<open>int\<close> products; they stay below \<open>2 ^ 31\<close> (lemma \<open>read_maxSize_value\<close>).
\<close>

definition read_maxSize :: int where
  "read_maxSize = max (push_bit maxExp 1 * int largeCount) (push_bit 20 1 * int smallCount)"

text \<open>Line 179: the repetition count of a read size.\<close>

definition read_count :: "u32 \<Rightarrow> nat" where
  "read_count readSize =
     (if real (unat readSize) > smallBigThreshold then largeCount else smallCount)"

text \<open>
  Line 180: \<open>uint32_t filePosIncrement = maxSize/count\<close>, an \<open>int\<close> division of two
  positive numbers, converted to \<open>uint32_t\<close>.
\<close>

definition filePosIncrement :: "nat \<Rightarrow> u32" where
  "filePosIncrement count = word_of_int (read_maxSize div int count)"

text \<open>
  Line 185: \<open>int filePos = (i*filePosIncrement) & ~(512 - 1)\<close>. The product is taken in
  \<open>uint32_t\<close> (\<open>i\<close> is converted), \<open>~(512 - 1)\<close> is the \<open>int\<close> -512 and converts to the
  word \<open>NOT 511\<close>, and the result is read back as a signed \<open>int\<close>.
\<close>

definition read_filePos :: "nat \<Rightarrow> u32 \<Rightarrow> int" where
  "read_filePos i increment = sint ((word_of_nat i * increment) AND NOT (512 - 1))"

text \<open>
  Lines 185-198, one repetition. The \<open>ssize_t\<close> result of \<open>pread\<close> is stored in the
  \<open>uint32_t bytesRead\<close> before it is compared.
\<close>

definition read_once :: "env \<Rightarrow> int \<Rightarrow> u32 \<Rightarrow> u32 \<Rightarrow> nat \<Rightarrow> u64 \<Rightarrow> calls \<Rightarrow> event list \<times> (int + u64) \<times> calls" where
  "read_once env file readSize increment i readCycles c =
     (let filePos = read_filePos i increment;
          (startRead, c1) = rdtsc env c;
          (n, c2) = pread env c1;
          rd = EPread file (unat readSize) filePos n;
          bytesRead = (word_of_int n :: u32)
      in if readSize \<noteq> bytesRead
         then ([rd, EPrintf (ShortRead readSize bytesRead), EPerror ''Read'', EExit (- 1)],
               Inl (- 1), c2)
         else
           (let (stop, c3) = rdtsc env c2
            in ([rd], Inr (readCycles + (stop - startRead)), c3)))"

text \<open>Line 183: \<open>for (int i = 0; i < count; ++i)\<close>.\<close>

function read_loop :: "env \<Rightarrow> int \<Rightarrow> u32 \<Rightarrow> u32 \<Rightarrow> nat \<Rightarrow> nat \<Rightarrow> u64 \<Rightarrow> calls \<Rightarrow> event list \<times> (int + u64) \<times> calls" where
  "read_loop env file readSize increment count i readCycles c =
     (if i < count
      then (case read_once env file readSize increment i readCycles c of
              (evs, Inl code, c') \<Rightarrow> (evs, Inl code, c')
            | (evs, Inr readCycles', c') \<Rightarrow>
                (case read_loop env file readSize increment count (Suc i) readCycles' c' of
                   (evs', res, c'') \<Rightarrow> (evs @ evs', res, c'')))
      else ([], Inr readCycles, c))"
  by pat_completeness auto
termination
  by (relation "measure (\<lambda>(env, file, readSize, increment, count, i, readCycles, c). count - i)") auto

text \<open>Lines 201-204: the result row of a read size.\<close>

definition read_row :: "u32 \<Rightarrow> nat \<Rightarrow> u64 \<Rightarrow> printed" where
  "read_row readSize count readCycles =
     ReadRow readSize
       (Div (Div (OfU32 readSize) (Div (ToSeconds readCycles) (OfInt count))) (Lit 1000000))
       (Div (ToSeconds readCycles) (OfInt count))"

text \<open>Lines 178-204: the body of the loop over the exponents.\<close>

definition read_size :: "env \<Rightarrow> int \<Rightarrow> nat \<Rightarrow> calls \<Rightarrow> event list \<times> (int + unit) \<times> calls" where
  "read_size env file e c =
     (let readSize = (push_bit e 1 :: u32);
          count = read_count readSize;
          increment = filePosIncrement count
      in case read_loop env file readSize increment count 0 0 c of
           (evs, Inl code, c1) \<Rightarrow> (evs, Inl code, c1)
         | (evs, Inr readCycles, c1) \<Rightarrow>
             (evs @ [EPrintf (read_row readSize count readCycles)], Inr (), c1))"

text \<open>Line 177: \<open>for (int i = minExp; i <= maxExp; ++i)\<close>.\<close>

function read_sizes :: "env \<Rightarrow> int \<Rightarrow> nat \<Rightarrow> calls \<Rightarrow> event list \<times> (int + unit) \<times> calls" where
  "read_sizes env file e c =
     (if e \<le> maxExp
      then (case read_size env file e c of
              (evs, Inl code, c') \<Rightarrow> (evs, Inl code, c')
            | (evs, Inr u, c') \<Rightarrow>
                (case read_sizes env file (Suc e) c' of
                   (evs', res, c'') \<Rightarrow> (evs @ evs', res, c'')))
      else ([], Inr (), c))"
  by pat_completeness auto
termination
  by (relation "measure (\<lambda>(env, file, e, c). Suc maxExp - e)") auto

text \<open>Lines 136-150: what is printed before the sweep.\<close>

definition read_intro :: "string \<Rightarrow> string option \<Rightarrow> event list" where
  "read_intro filename extraComments =
     [ESetlocale, EPrintf (ReadBanner filename)] @
     (case extraComments of None \<Rightarrow> [] | Some s \<Rightarrow> [EPrintf (ExtraComment s)]) @
     [EPrintf ReadColumns]"

text \<open>
  Lines 152-213. The file is opened and filled once, before the loop over the sizes, and
  closed and removed once, after it. The results of \<open>fsync\<close> (line 175), of \<open>close\<close>
  (line 207) and of \<open>std::remove\<close> (line 208) are dropped.
\<close>

definition benchmark_read :: "env \<Rightarrow> string \<Rightarrow> string option \<Rightarrow> oflag set \<Rightarrow> calls \<Rightarrow> event list \<times> (int + unit) \<times> calls" where
  "benchmark_read env filename extraComments extraFileOps c =
     (let (failed, c1) = posix_memalign env c;
          al = EMemalign 512 (nat read_maxSize) failed
      in if failed \<noteq> 0
         then (read_intro filename extraComments @ [al, EPerror ''Memalign failed'', EExit (- 1)],
               Inl (- 1), c1)
         else
           (let (file, c2) = sys_open env c1;
                op = EOpen filename ({O_RDWR, O_CREAT} \<union> extraFileOps) file
            in if - 1 = file
               then (read_intro filename extraComments @
                       [al, op, EPerror ''Opening file failed'', EExit (- 1)], Inl (- 1), c2)
               else
                 (let (n, c3) = sys_write env c2;
                      wr = EWrite file (nat read_maxSize) n
                  in if read_maxSize \<noteq> n
                     then (read_intro filename extraComments @
                             [al, op, wr, EPerror ''Initial Write'', EExit (- 1)], Inl (- 1), c3)
                     else
                       (let (r, c4) = fsync env c3;
                            sy = EFsync file r
                        in case read_sizes env file minExp c4 of
                             (evs, Inl code, c5) \<Rightarrow>
                               (read_intro filename extraComments @ [al, op, wr, sy] @ evs,
                                Inl code, c5)
                           | (evs, Inr u, c5) \<Rightarrow>
                               (let (closed, c6) = sys_close env c5;
                                    (removed, c7) = std_remove env c6
                                in (read_intro filename extraComments @ [al, op, wr, sy] @ evs @
                                      [EClose file closed, ERemove filename removed,
                                       EPrintf BlankLine, EFree],
                                    Inr (), c7))))))"

section \<open>The program (main, lines 216-235)\<close>

text \<open>
  \<open>argv\<close> is the argument vector, the name of the program included, and \<open>argc\<close> its
  length. The result is \<open>Inl\<close> the argument of \<open>exit\<close>, or \<open>Inr 0\<close> when \<open>main\<close> reaches
  its end.
\<close>

definition main :: "env \<Rightarrow> string list \<Rightarrow> event list \<times> (int + int)" where
  "main env argv =
     (let argc = length argv
      in if argc \<ge> 3
         then ([EPrintf UsageAbout, EPrintf UsageLine, EExit (- 1)], Inl (- 1))
         else
           (let filename = (if argc = 2 then argv ! 1 else ''/tmp/benchmark.tmp'')
            in case benchmark_write env filename (Some ''With O_DIRECT|O_SYNC'')
                      {O_DIRECT, O_SYNC} no_calls of
                 (evs, Inl code, c) \<Rightarrow> (evs, Inl code)
               | (evs, Inr u, c) \<Rightarrow>
                   (case benchmark_read env filename (Some ''With O_DIRECT|O_SYNC'')
                           {O_DIRECT, O_SYNC} c of
                      (evs', Inl code, c') \<Rightarrow> (evs @ evs', Inl code)
                    | (evs', Inr u', c') \<Rightarrow> (evs @ evs', Inr 0))))"

text \<open>The status the parent process sees is the low byte of the argument of \<open>exit\<close>.\<close>

definition exit_status :: "int \<Rightarrow> int" where
  "exit_status code = code mod 256"

section \<open>Observing a run\<close>

text \<open>
  The transfers of a run: for each \<open>pwrite\<close> and \<open>pread\<close>, in order, the number of bytes
  asked for and the value returned; and the sizes asked alone.
\<close>

fun transfer_of :: "event \<Rightarrow> (nat \<times> int) list" where
  "transfer_of (EPwrite fd n off r) = [(n, r)]"
| "transfer_of (EPread fd n off r) = [(n, r)]"
| "transfer_of ev = []"

definition transfers :: "event list \<Rightarrow> (nat \<times> int) list" where
  "transfers evs = concat (map transfer_of evs)"

fun request_of :: "event \<Rightarrow> nat list" where
  "request_of (EPwrite fd n off r) = [n]"
| "request_of (EPread fd n off r) = [n]"
| "request_of ev = []"

definition requests :: "event list \<Rightarrow> nat list" where
  "requests evs = concat (map request_of evs)"

text \<open>A transfer that did not return the number of bytes asked for.\<close>

fun short :: "event \<Rightarrow> bool" where
  "short (EPwrite fd n off r) = (r \<noteq> int n)"
| "short (EPread fd n off r) = (r \<noteq> int n)"
| "short ev = False"

text \<open>The file ranges written by \<open>pwrite\<close> and read by \<open>pread\<close>: offset and length.\<close>

fun pwrite_range :: "event \<Rightarrow> (int \<times> nat) list" where
  "pwrite_range (EPwrite fd n off r) = [(off, n)]"
| "pwrite_range ev = []"

definition pwrite_ranges :: "event list \<Rightarrow> (int \<times> nat) list" where
  "pwrite_ranges evs = concat (map pwrite_range evs)"

fun pread_range :: "event \<Rightarrow> (int \<times> nat) list" where
  "pread_range (EPread fd n off r) = [(off, n)]"
| "pread_range ev = []"

definition pread_ranges :: "event list \<Rightarrow> (int \<times> nat) list" where
  "pread_ranges evs = concat (map pread_range evs)"

text \<open>
  What the read sweep does with its file: the number of bytes asked of the \<open>write\<close> that
  fills it, then the ranges read.
\<close>

datatype access = Filled nat | ReadAt int nat

fun access_of :: "event \<Rightarrow> access list" where
  "access_of (EWrite fd n r) = [Filled n]"
| "access_of (EPread fd n off r) = [ReadAt off n]"
| "access_of ev = []"

definition accesses :: "event list \<Rightarrow> access list" where
  "accesses evs = concat (map access_of evs)"

text \<open>
  The resources a run holds: the buffers allocated and not yet freed, the descriptors
  opened and not yet closed, and whether a file exists at a given path. A successful
  \<open>open\<close> with \<open>O_CREAT\<close> leaves a file at its path, and \<open>std::remove\<close> leaves none
  when it returns 0; when it fails the file stays. \<open>close\<close> releases its descriptor
  whatever it returns, as Linux does (the target of \<open>O_DIRECT\<close>).
\<close>

record resources =
  buffers :: nat
  descriptors :: nat
  file_exists :: bool

fun effect :: "string \<Rightarrow> event \<Rightarrow> resources \<Rightarrow> resources" where
  "effect p (EMemalign a n r) s = (if r = 0 then s\<lparr>buffers := Suc (buffers s)\<rparr> else s)"
| "effect p EFree s = s\<lparr>buffers := buffers s - 1\<rparr>"
| "effect p (EOpen f ops r) s =
     (if r = - 1 then s
      else s\<lparr>descriptors := Suc (descriptors s),
             file_exists := (if f = p \<and> O_CREAT \<in> ops then True else file_exists s)\<rparr>)"
| "effect p (EClose fd r) s = s\<lparr>descriptors := descriptors s - 1\<rparr>"
| "effect p (ERemove f r) s = (if f = p \<and> r = 0 then s\<lparr>file_exists := False\<rparr> else s)"
| "effect p ev s = s"

definition replay :: "string \<Rightarrow> event list \<Rightarrow> resources \<Rightarrow> resources" where
  "replay p evs s = fold (effect p) evs s"

text \<open>The events that change the resources, and the calls that use a descriptor.\<close>

fun touches :: "event \<Rightarrow> bool" where
  "touches (EMemalign a n r) = True"
| "touches EFree = True"
| "touches (EOpen f ops r) = True"
| "touches (EClose fd r) = True"
| "touches (ERemove f r) = True"
| "touches ev = False"

fun is_io :: "event \<Rightarrow> bool" where
  "is_io (EPwrite fd n off r) = True"
| "is_io (EPread fd n off r) = True"
| "is_io (EWrite fd n r) = True"
| "is_io (EFsync fd r) = True"
| "is_io ev = False"

text \<open>The printing of a result row ends the iteration for a transfer size.\<close>

fun is_row :: "event \<Rightarrow> bool" where
  "is_row (EPrintf (WriteRow n b w f)) = True"
| "is_row (EPrintf (ReadRow n b r)) = True"
| "is_row ev = False"

text \<open>
  \<open>holds_at sel P p s evs\<close>: in the run \<open>evs\<close>, started with the resources \<open>s\<close>, the
  resources satisfy \<open>P\<close> whenever an event selected by \<open>sel\<close> happens.
\<close>

fun holds_at :: "(event \<Rightarrow> bool) \<Rightarrow> (resources \<Rightarrow> bool) \<Rightarrow> string \<Rightarrow> resources \<Rightarrow> event list \<Rightarrow> bool" where
  "holds_at sel P p s [] = True"
| "holds_at sel P p s (ev # evs) =
     ((if sel ev then P s else True) \<and> holds_at sel P p (effect p ev s) evs)"

text \<open>
  The life of the buffer and of the descriptors along a run: a buffer allocated, a
  descriptor opened, a transfer, a row printed, a descriptor closed, the buffer freed. A
  \<open>posix_memalign\<close> or an \<open>open\<close> that fails gives nothing to release.
\<close>

datatype stage = Allocated | Opened | Transfer | RowPrinted | Closed | Freed

fun stage_of :: "event \<Rightarrow> stage list" where
  "stage_of (EMemalign a n r) = (if r = 0 then [Allocated] else [])"
| "stage_of (EOpen f ops r) = (if r = - 1 then [] else [Opened])"
| "stage_of (EPwrite fd n off r) = [Transfer]"
| "stage_of (EPread fd n off r) = [Transfer]"
| "stage_of (EPrintf (WriteRow n b w f)) = [RowPrinted]"
| "stage_of (EPrintf (ReadRow n b r)) = [RowPrinted]"
| "stage_of (EClose fd r) = [Closed]"
| "stage_of EFree = [Freed]"
| "stage_of ev = []"

definition stages :: "event list \<Rightarrow> stage list" where
  "stages evs = concat (map stage_of evs)"

text \<open>
  The life of the file at the target path: created by an \<open>open\<close> with \<open>O_CREAT\<close> that
  succeeds, passed to \<open>std::remove\<close>; and the rows, which tell the transfer sizes apart.
  The values \<open>std::remove\<close> returned are kept aside.
\<close>

datatype file_step = Created string | Removal string | Row nat

fun file_step_of :: "event \<Rightarrow> file_step list" where
  "file_step_of (EOpen f ops r) = (if r \<noteq> - 1 \<and> O_CREAT \<in> ops then [Created f] else [])"
| "file_step_of (ERemove f r) = [Removal f]"
| "file_step_of (EPrintf (WriteRow n b w f)) = [Row (unat n)]"
| "file_step_of (EPrintf (ReadRow n b r)) = [Row (unat n)]"
| "file_step_of ev = []"

definition file_steps :: "event list \<Rightarrow> file_step list" where
  "file_steps evs = concat (map file_step_of evs)"

fun removal_of :: "event \<Rightarrow> int list" where
  "removal_of (ERemove f r) = [r]"
| "removal_of ev = []"

definition removals :: "event list \<Rightarrow> int list" where
  "removals evs = concat (map removal_of evs)"

text \<open>The paths a run passes to \<open>open\<close> and \<open>std::remove\<close>, and its file system calls.\<close>

fun path_of :: "event \<Rightarrow> string list" where
  "path_of (EOpen f ops r) = [f]"
| "path_of (ERemove f r) = [f]"
| "path_of ev = []"

definition paths :: "event list \<Rightarrow> string list" where
  "paths evs = concat (map path_of evs)"

fun file_call :: "event \<Rightarrow> bool" where
  "file_call (EOpen f ops r) = True"
| "file_call (EClose fd r) = True"
| "file_call (ERemove f r) = True"
| "file_call (EPwrite fd n off r) = True"
| "file_call (EWrite fd n r) = True"
| "file_call (EPread fd n off r) = True"
| "file_call (EFsync fd r) = True"
| "file_call ev = False"

text \<open>A run with the values returned by \<open>fsync\<close> blanked.\<close>

fun forget_fsync :: "event \<Rightarrow> event" where
  "forget_fsync (EFsync fd r) = EFsync fd 0"
| "forget_fsync ev = ev"

definition blur :: "event list \<times> 'a \<Rightarrow> event list \<times> 'a" where
  "blur x = (map forget_fsync (fst x), snd x)"

section \<open>The course of a run\<close>

text \<open>
  The outline of an event is the event without what the platform decided: the values
  returned, the descriptor, the times in a row. What remains is what the program chose:
  the call, the sizes, the offsets, the paths, the flags.
\<close>

fun outline_printed :: "printed \<Rightarrow> printed" where
  "outline_printed (WriteRow n b w f) = WriteRow n (Lit 0) (Lit 0) (Lit 0)"
| "outline_printed (ReadRow n b r) = ReadRow n (Lit 0) (Lit 0)"
| "outline_printed p = p"

fun outline :: "event \<Rightarrow> event" where
  "outline (EPrintf p) = EPrintf (outline_printed p)"
| "outline (EMemalign a n r) = EMemalign a n 0"
| "outline (EOpen f ops r) = EOpen f ops 0"
| "outline (EClose fd r) = EClose 0 0"
| "outline (ERemove f r) = ERemove f 0"
| "outline (EPwrite fd n off r) = EPwrite 0 n off 0"
| "outline (EWrite fd n r) = EWrite 0 n 0"
| "outline (EPread fd n off r) = EPread 0 n off 0"
| "outline (EFsync fd r) = EFsync 0 0"
| "outline ev = ev"

text \<open>
  The tests the code makes on what a call returned (lines 69, 81, 93, 170 and 189), and
  what it prints before \<open>exit\<close> when the test fails. Line 189 compares the size with the
  result stored in a \<open>uint32_t\<close>. No other result is tested.
\<close>

fun succeeded :: "event \<Rightarrow> bool" where
  "succeeded (EMemalign a n r) = (r = 0)"
| "succeeded (EOpen f ops r) = (r \<noteq> - 1)"
| "succeeded (EPwrite fd n off r) = (r = int n)"
| "succeeded (EWrite fd n r) = (r = int n)"
| "succeeded (EPread fd n off r) = ((word_of_int r :: u32) = word_of_nat n)"
| "succeeded ev = True"

fun diagnostic :: "event \<Rightarrow> event list" where
  "diagnostic (EMemalign a n r) = [EPerror ''Memalign failed'']"
| "diagnostic (EOpen f ops r) = [EPerror ''Opening file failed'']"
| "diagnostic (EPwrite fd n off r) = [EPerror ''Write'']"
| "diagnostic (EWrite fd n r) = [EPerror ''Initial Write'']"
| "diagnostic (EPread fd n off r) =
     [EPrintf (ShortRead (word_of_nat n) (word_of_int r)), EPerror ''Read'']"
| "diagnostic ev = []"

text \<open>
  A run against a plan, the list of the outlines of the events a run is meant to cause.
  A run completes the plan when its events have these outlines and every test passed. It
  aborts within the plan when it goes along the plan up to a call whose test fails, and
  then prints the diagnostic of that call and calls \<open>exit (-1)\<close>, and nothing more.
\<close>

definition completed :: "event list \<Rightarrow> event list \<Rightarrow> bool" where
  "completed evs plan = (map outline evs = plan \<and> list_all succeeded evs)"

fun aborted :: "event list \<Rightarrow> event list \<Rightarrow> bool" where
  "aborted [] plan = False"
| "aborted (ev # evs) plan =
     (case plan of
        [] \<Rightarrow> False
      | p # ps \<Rightarrow>
          outline ev = p \<and>
          (if succeeded ev then aborted evs ps else evs = diagnostic ev @ [EExit (- 1)]))"

definition follows :: "event list \<Rightarrow> int + 'a \<Rightarrow> event list \<Rightarrow> bool" where
  "follows evs res plan =
     (case res of Inl code \<Rightarrow> code = - 1 \<and> aborted evs plan | Inr u \<Rightarrow> completed evs plan)"

section \<open>The sweeps as the specification describes them\<close>

text \<open>
  The repetition count as the specification gives it: the small count below the
  threshold, the large count at the threshold and above.
\<close>

definition claimed_count :: "nat \<Rightarrow> nat" where
  "claimed_count S = (if real S < smallBigThreshold then smallCount else largeCount)"

text \<open>The size of the file the read sweep fills, as the specification gives it.\<close>

definition claimed_total :: int where
  "claimed_total = max (2 ^ maxExp * int largeCount) (2 ^ 20 * int smallCount)"

text \<open>
  The plan of the write sweep. For each exponent from \<open>minExp\<close> to \<open>maxExp\<close>: open the
  file, write \<open>S = 2 ^ e\<close> bytes at the offsets \<open>0, S, 2 * S, ...\<close> the claimed number of
  times, each write followed by a sync, then close, remove, print the row. All numbers
  are unbounded.
\<close>

definition plan_write_size :: "string \<Rightarrow> oflag set \<Rightarrow> nat \<Rightarrow> event list" where
  "plan_write_size filename ops e =
     EOpen filename ({O_WRONLY, O_CREAT} \<union> ops) 0
     # concat (map (\<lambda>k. [EPwrite 0 (2 ^ e) (int k * 2 ^ e) 0, EFsync 0 0])
                 [0..<claimed_count (2 ^ e)])
     @ [EClose 0 0, ERemove filename 0, EPrintf (WriteRow (2 ^ e) (Lit 0) (Lit 0) (Lit 0))]"

definition plan_write :: "string \<Rightarrow> string option \<Rightarrow> oflag set \<Rightarrow> event list" where
  "plan_write filename cm ops =
     write_intro filename cm @ [EMemalign 512 (2 ^ maxExp) 0]
     @ concat (map (plan_write_size filename ops) [minExp..<Suc maxExp])
     @ [EPrintf BlankLine, EFree]"

text \<open>
  The plan of the read sweep. Open the file and fill it with \<open>T\<close> bytes, sync; then for
  each exponent read \<open>S = 2 ^ e\<close> bytes the claimed number \<open>c\<close> of times, the i-th time at
  the offset \<open>i * (T div c)\<close> with its low 9 bits cleared, and print the row; then close
  and remove.
\<close>

definition plan_read_size :: "nat \<Rightarrow> event list" where
  "plan_read_size e =
     map (\<lambda>i. EPread 0 (2 ^ e)
                ((int i * (claimed_total div int (claimed_count (2 ^ e)))) AND NOT (2 ^ 9 - 1)) 0)
         [0..<claimed_count (2 ^ e)]
     @ [EPrintf (ReadRow (2 ^ e) (Lit 0) (Lit 0))]"

definition plan_read :: "string \<Rightarrow> string option \<Rightarrow> oflag set \<Rightarrow> event list" where
  "plan_read filename cm ops =
     read_intro filename cm
     @ [EMemalign 512 (nat claimed_total) 0, EOpen filename ({O_RDWR, O_CREAT} \<union> ops) 0,
        EWrite 0 (nat claimed_total) 0, EFsync 0 0]
     @ concat (map plan_read_size [minExp..<Suc maxExp])
     @ [EClose 0 0, ERemove filename 0, EPrintf BlankLine, EFree]"

section \<open>Environments for examples\<close>

text \<open>
  Every transfer returns \<open>n\<close> bytes, every other call succeeds, \<open>open\<close> returns the
  descriptor 3 and the cycle counter advances by one at each reading.
\<close>

definition steady :: "int \<Rightarrow> env" where
  "steady n = \<lparr>rdtsc_val = word_of_nat, memalign_res = (\<lambda>k. 0), open_res = (\<lambda>k. 3),
     pwrite_res = (\<lambda>k. n), write_res = (\<lambda>k. read_maxSize), pread_res = (\<lambda>k. n),
     fsync_res = (\<lambda>k. 0), close_res = (\<lambda>k. 0), remove_res = (\<lambda>k. 0)\<rparr>"

text \<open>
  The sizes of the transfers of a sweep, in order, from the exponent \<open>e\<close> on; and the
  environment in which every call does what it is asked: each transfer returns the size
  of its turn.
\<close>

function transfer_sizes :: "nat \<Rightarrow> int list" where
  "transfer_sizes e =
     (if e \<le> maxExp
      then replicate (write_count (push_bit e 1)) (int (unat (push_bit e 1 :: u32)))
           @ transfer_sizes (Suc e)
      else [])"
  by pat_completeness auto
termination
  by (relation "measure (\<lambda>e. Suc maxExp - e)") auto

definition size_of_turn :: "nat \<Rightarrow> int" where
  "size_of_turn k =
     (if k < length (transfer_sizes minExp) then transfer_sizes minExp ! k else - 1)"

definition obliging :: env where
  "obliging = \<lparr>rdtsc_val = word_of_nat, memalign_res = (\<lambda>k. 0), open_res = (\<lambda>k. 3),
     pwrite_res = size_of_turn, write_res = (\<lambda>k. read_maxSize),
     pread_res = size_of_turn, fsync_res = (\<lambda>k. 0), close_res = (\<lambda>k. 0),
     remove_res = (\<lambda>k. 0)\<rparr>"

section \<open>Arithmetic of the configuration\<close>

lemma read_maxSize_value: "read_maxSize = 805306368"
  by (simp add: read_maxSize_def maxExp_def largeCount_def smallCount_def)

lemma unat_push_bit_1: "e < 32 \<Longrightarrow> unat (push_bit e 1 :: u32) = 2 ^ e"
proof -
  assume "e < 32"
  then have lt: "(2::nat) ^ e < 2 ^ 32" by (intro power_strict_increasing) simp_all
  have "unat (push_bit e 1 :: u32) = unat (word_of_nat (2 ^ e) :: u32)"
    by (simp add: push_bit_eq_mult)
  also have "\<dots> = 2 ^ e mod 2 ^ 32" by (simp only: unat_of_nat) simp
  also have "\<dots> = 2 ^ e" using lt by simp
  finally show ?thesis .
qed

lemma read_count_small: "e < 20 \<Longrightarrow> read_count (push_bit e 1) = 100"
proof -
  assume a: "e < 20"
  then have "(2::nat) ^ e \<le> 2 ^ 19" by (intro power_increasing) simp_all
  then have "(2::nat) ^ e \<le> 1000000" by simp
  then have "real (2 ^ e) \<le> 1000000" by (metis of_nat_le_iff of_nat_numeral)
  with a show ?thesis
    by (simp add: read_count_def unat_push_bit_1 smallBigThreshold_def smallCount_def del: push_bit_of_1)
qed

lemma read_count_large: "20 \<le> e \<Longrightarrow> e < 32 \<Longrightarrow> read_count (push_bit e 1) = 3"
proof -
  assume a: "20 \<le> e" "e < 32"
  then have "(2::nat) ^ 20 \<le> 2 ^ e" by (intro power_increasing) simp_all
  then have "(1000000::nat) < 2 ^ e" by simp
  then have "(1000000::real) < real (2 ^ e)" by (metis of_nat_less_iff of_nat_numeral)
  with a show ?thesis
    by (simp add: read_count_def unat_push_bit_1 smallBigThreshold_def largeCount_def del: push_bit_of_1)
qed

lemma same_count: "write_count = read_count"
  by (rule ext) (simp add: write_count_def read_count_def)

lemma uint_clear_low: "uint ((w::u32) AND NOT (512 - 1)) = uint w - uint w mod 512"
proof -
  have m: "(512 - 1 :: u32) = mask 9"
    by (simp add: mask_eq_exp_minus_1)
  have cl: "w AND NOT (mask 9) = push_bit 9 (drop_bit 9 w)"
    by (rule bit_eqI) (auto simp: bit_simps)
  have tb: "take_bit 32 (uint w) = uint w"
    by (rule take_bit_int_eq_self) (use uint_lt2p [of w] in simp_all)
  have "uint (push_bit 9 (drop_bit 9 w)) = take_bit 32 (push_bit 9 (drop_bit 9 (uint w)))"
    by (simp add: unsigned_push_bit_eq unsigned_drop_bit_eq tb)
  also have "\<dots> = push_bit 9 (drop_bit 9 (uint w))"
  proof (rule take_bit_int_eq_self)
    show "0 \<le> push_bit 9 (drop_bit 9 (uint w))"
      by (simp add: push_bit_eq_mult drop_bit_eq_div pos_imp_zdiv_nonneg_iff)
    have "uint w < 2 ^ 32" using uint_lt2p [of w] by simp
    then show "push_bit 9 (drop_bit 9 (uint w)) < 2 ^ 32"
      by (simp add: push_bit_eq_mult drop_bit_eq_div) 
  qed
  also have "\<dots> = uint w - uint w mod 512"
    by (simp add: push_bit_eq_mult drop_bit_eq_div minus_mod_eq_mult_div)
  finally show ?thesis by (simp only: m cl)
qed

lemma int_clear_low: "(k::int) AND NOT (512 - 1) = k - k mod 512"
proof -
  have "(512 - 1 :: int) = mask 9" by (simp add: mask_eq_exp_minus_1)
  moreover have "k AND NOT (mask 9) = push_bit 9 (drop_bit 9 k)"
    by (rule bit_eqI) (auto simp: bit_simps)
  ultimately show ?thesis
    by (simp add: push_bit_eq_mult drop_bit_eq_div minus_mod_eq_mult_div)
qed

lemma read_filePos_exact:
  assumes "0 \<le> s" and "int i * s < 2 ^ 31"
  shows "read_filePos i (word_of_int s) = int i * s - (int i * s) mod 512"
proof -
  let ?w = "word_of_nat i * (word_of_int s :: u32)"
  have "?w = word_of_int (int i * s)" by simp
  then have "uint ?w = (int i * s) mod 2 ^ 32"
    by (simp only: uint_word_of_int) simp
  also have "\<dots> = int i * s" using assms by simp
  finally have u: "uint ?w = int i * s" .
  have c: "uint (?w AND NOT (512 - 1)) = int i * s - (int i * s) mod 512"
    by (simp only: uint_clear_low u)
  have "sint (?w AND NOT (512 - 1)) = signed_take_bit 31 (uint (?w AND NOT (512 - 1)))"
    by (simp add: sint_uint)
  also have "\<dots> = int i * s - (int i * s) mod 512"
    unfolding c
  proof (rule signed_take_bit_int_eq_self)
    have "0 \<le> int i * s - (int i * s) mod 512"
      using assms by (simp add: minus_mod_eq_mult_div pos_imp_zdiv_nonneg_iff)
    then show "- (2 ^ 31) \<le> int i * s - (int i * s) mod 512" by simp
    have "int i * s - (int i * s) mod 512 \<le> int i * s" by simp
    then show "int i * s - (int i * s) mod 512 < 2 ^ 31" using assms by linarith
  qed
  finally show ?thesis by (simp only: read_filePos_def)
qed

section \<open>The two repetition loops, unfolded\<close>

declare write_loop.simps [simp del]

lemma write_once_fail:
  "pwrite_res env (n_pwrite c) \<noteq> int (unat S) \<Longrightarrow>
   write_once env fd S v c =
     ([EPwrite fd (unat S) (int (unat (filePos v))) (pwrite_res env (n_pwrite c)),
       EPerror ''Write'', EExit (- 1)], Inl (- 1),
      c\<lparr>n_rdtsc := Suc (n_rdtsc c), n_pwrite := Suc (n_pwrite c)\<rparr>)"
  by (simp add: write_once_def rdtsc_def pwrite_def)

lemma write_once_ok:
  "pwrite_res env (n_pwrite c) = int (unat S) \<Longrightarrow>
   write_once env fd S v c =
     ([EPwrite fd (unat S) (int (unat (filePos v))) (int (unat S)),
       EFsync fd (fsync_res env (n_fsync c))],
      Inr \<lparr>filePos = filePos v + S,
           writeCycles = writeCycles v
             + (rdtsc_val env (n_rdtsc c + 1) - rdtsc_val env (n_rdtsc c)),
           fsyncCycles = fsyncCycles v
             + (rdtsc_val env (n_rdtsc c + 2) - rdtsc_val env (n_rdtsc c + 1))\<rparr>,
      c\<lparr>n_rdtsc := n_rdtsc c + 3, n_pwrite := Suc (n_pwrite c),
        n_fsync := Suc (n_fsync c)\<rparr>)"
  by (simp add: write_once_def rdtsc_def pwrite_def fsync_def sys_close_def std_remove_def numeral_3_eq_3 numeral_2_eq_2)

lemma write_loop_done:
  "\<not> i < count \<Longrightarrow> write_loop env fd S count i v c = ([], Inr v, c)"
  by (simp add: write_loop.simps)

lemma write_loop_fail:
  "i < count \<Longrightarrow> pwrite_res env (n_pwrite c) \<noteq> int (unat S) \<Longrightarrow>
   write_loop env fd S count i v c = write_once env fd S v c"
  by (simp add: write_loop.simps [of env fd S count i] write_once_fail)

lemma write_loop_step:
  "i < count \<Longrightarrow> pwrite_res env (n_pwrite c) = int (unat S) \<Longrightarrow>
   write_loop env fd S count i v c =
     (case write_once env fd S v c of
        (evs, res, c') \<Rightarrow>
          (case write_loop env fd S count (Suc i) (projr res) c' of
             (evs', res', c'') \<Rightarrow> (evs @ evs', res', c'')))"
  by (simp add: write_loop.simps [of env fd S count i] write_once_ok)

lemma upt_0_Suc: "[0..<Suc n] = 0 # map Suc [0..<n]"
  by (simp add: upt_conv_Cons map_Suc_upt del: upt_Suc)

lemma write_loop_all_ok:
  "\<forall>k < count - i. pwrite_res env (n_pwrite c + k) = int (unat S) \<Longrightarrow>
   write_loop env fd S count i v c =
     (concat (map (\<lambda>k. [EPwrite fd (unat S) (int (unat (filePos v + word_of_nat k * S))) (int (unat S)),
                         EFsync fd (fsync_res env (n_fsync c + k))]) [0..<count - i]),
      Inr \<lparr>filePos = filePos v + word_of_nat (count - i) * S,
           writeCycles = writeCycles v
             + (\<Sum>k<count - i. rdtsc_val env (n_rdtsc c + 3 * k + 1) - rdtsc_val env (n_rdtsc c + 3 * k)),
           fsyncCycles = fsyncCycles v
             + (\<Sum>k<count - i. rdtsc_val env (n_rdtsc c + 3 * k + 2) - rdtsc_val env (n_rdtsc c + 3 * k + 1))\<rparr>,
      c\<lparr>n_rdtsc := n_rdtsc c + 3 * (count - i), n_pwrite := n_pwrite c + (count - i),
        n_fsync := n_fsync c + (count - i)\<rparr>)"
proof (induction "count - i" arbitrary: i v c)
  case 0
  then show ?case by (simp add: write_loop_done)
next
  case (Suc n)
  from Suc.hyps(2) have lt: "i < count" and n: "n = count - Suc i" by simp_all
  from Suc.prems Suc.hyps(2) have ok0: "pwrite_res env (n_pwrite c) = int (unat S)"
    by (metis add.right_neutral zero_less_Suc)
  let ?v = "\<lparr>filePos = filePos v + S,
           writeCycles = writeCycles v
             + (rdtsc_val env (n_rdtsc c + 1) - rdtsc_val env (n_rdtsc c)),
           fsyncCycles = fsyncCycles v
             + (rdtsc_val env (n_rdtsc c + 2) - rdtsc_val env (n_rdtsc c + 1))\<rparr>"
  let ?c = "c\<lparr>n_rdtsc := n_rdtsc c + 3, n_pwrite := Suc (n_pwrite c),
        n_fsync := Suc (n_fsync c)\<rparr>"
  have rest: "\<forall>k < count - Suc i. pwrite_res env (n_pwrite ?c + k) = int (unat S)"
  proof (intro allI impI)
    fix k assume "k < count - Suc i"
    then have "Suc k < count - i" by simp
    with Suc.prems have "pwrite_res env (n_pwrite c + Suc k) = int (unat S)" by blast
    then show "pwrite_res env (n_pwrite ?c + k) = int (unat S)" by simp
  qed
  note ih = Suc.hyps(1) [OF n rest]
  show ?case
    unfolding write_loop_step [OF lt ok0] write_once_ok [OF ok0]
    by (simp add: ih Suc.hyps(2) [symmetric] n [symmetric] upt_0_Suc comp_def
        sum.lessThan_Suc_shift algebra_simps del: upt_Suc sum.lessThan_Suc)
qed

lemma write_loop_fails_at:
  "m < count - i \<Longrightarrow>
   \<forall>k < m. pwrite_res env (n_pwrite c + k) = int (unat S) \<Longrightarrow>
   pwrite_res env (n_pwrite c + m) \<noteq> int (unat S) \<Longrightarrow>
   write_loop env fd S count i v c =
     (concat (map (\<lambda>k. [EPwrite fd (unat S) (int (unat (filePos v + word_of_nat k * S))) (int (unat S)),
                         EFsync fd (fsync_res env (n_fsync c + k))]) [0..<m])
      @ [EPwrite fd (unat S) (int (unat (filePos v + word_of_nat m * S)))
           (pwrite_res env (n_pwrite c + m)),
         EPerror ''Write'', EExit (- 1)],
      Inl (- 1),
      c\<lparr>n_rdtsc := n_rdtsc c + 3 * m + 1, n_pwrite := n_pwrite c + m + 1,
        n_fsync := n_fsync c + m\<rparr>)"
proof (induction m arbitrary: i v c)
  case 0
  then have lt: "i < count" and bad: "pwrite_res env (n_pwrite c) \<noteq> int (unat S)" by simp_all
  show ?case
    unfolding write_loop_fail [OF lt bad] write_once_fail [OF bad] by simp
next
  case (Suc m)
  from Suc.prems(1) have lt: "i < count" and m: "m < count - Suc i" by simp_all
  from Suc.prems(2) have ok0: "pwrite_res env (n_pwrite c) = int (unat S)"
    by (metis add.right_neutral zero_less_Suc)
  let ?v = "\<lparr>filePos = filePos v + S,
           writeCycles = writeCycles v
             + (rdtsc_val env (n_rdtsc c + 1) - rdtsc_val env (n_rdtsc c)),
           fsyncCycles = fsyncCycles v
             + (rdtsc_val env (n_rdtsc c + 2) - rdtsc_val env (n_rdtsc c + 1))\<rparr>"
  let ?c = "c\<lparr>n_rdtsc := n_rdtsc c + 3, n_pwrite := Suc (n_pwrite c),
        n_fsync := Suc (n_fsync c)\<rparr>"
  have rest: "\<forall>k < m. pwrite_res env (n_pwrite ?c + k) = int (unat S)"
  proof (intro allI impI)
    fix k assume "k < m"
    then have "Suc k < Suc m" by simp
    with Suc.prems(2) have "pwrite_res env (n_pwrite c + Suc k) = int (unat S)" by blast
    then show "pwrite_res env (n_pwrite ?c + k) = int (unat S)" by simp
  qed
  from Suc.prems(3) have bad: "pwrite_res env (n_pwrite ?c + m) \<noteq> int (unat S)" by simp
  note ih = Suc.IH [OF m rest bad]
  show ?case
    unfolding write_loop_step [OF lt ok0] write_once_ok [OF ok0]
    by (simp add: ih upt_0_Suc comp_def algebra_simps del: upt_Suc)
qed

declare read_loop.simps [simp del]

lemma read_once_fail:
  "word_of_int (pread_res env (n_pread c)) \<noteq> S \<Longrightarrow>
   read_once env file S inc i rc c =
     ([EPread file (unat S) (read_filePos i inc) (pread_res env (n_pread c)),
       EPrintf (ShortRead S (word_of_int (pread_res env (n_pread c)))),
       EPerror ''Read'', EExit (- 1)], Inl (- 1),
      c\<lparr>n_rdtsc := n_rdtsc c + 1, n_pread := Suc (n_pread c)\<rparr>)"
  by (auto simp add: read_once_def rdtsc_def pread_def)

lemma read_once_ok:
  "word_of_int (pread_res env (n_pread c)) = S \<Longrightarrow>
   read_once env file S inc i rc c =
     ([EPread file (unat S) (read_filePos i inc) (pread_res env (n_pread c))],
      Inr (rc + (rdtsc_val env (n_rdtsc c + 1) - rdtsc_val env (n_rdtsc c))),
      c\<lparr>n_rdtsc := n_rdtsc c + 2, n_pread := Suc (n_pread c)\<rparr>)"
  by (auto simp add: read_once_def rdtsc_def pread_def numeral_2_eq_2)

lemma read_loop_done:
  "\<not> i < count \<Longrightarrow> read_loop env file S inc count i rc c = ([], Inr rc, c)"
  by (simp add: read_loop.simps)

lemma read_loop_fail:
  "i < count \<Longrightarrow> word_of_int (pread_res env (n_pread c)) \<noteq> S \<Longrightarrow>
   read_loop env file S inc count i rc c = read_once env file S inc i rc c"
  by (simp add: read_loop.simps [where i = i] read_once_fail)

lemma read_loop_step:
  "i < count \<Longrightarrow> word_of_int (pread_res env (n_pread c)) = S \<Longrightarrow>
   read_loop env file S inc count i rc c =
     (case read_once env file S inc i rc c of
        (evs, res, c') \<Rightarrow>
          (case read_loop env file S inc count (Suc i) (projr res) c' of
             (evs', res', c'') \<Rightarrow> (evs @ evs', res', c'')))"
  by (simp add: read_loop.simps [where i = i] read_once_ok)

lemma read_loop_all_ok:
  "\<forall>k < count - i. word_of_int (pread_res env (n_pread c + k)) = S \<Longrightarrow>
   read_loop env file S inc count i rc c =
     (map (\<lambda>k. EPread file (unat S) (read_filePos (i + k) inc) (pread_res env (n_pread c + k)))
        [0..<count - i],
      Inr (rc + (\<Sum>k<count - i. rdtsc_val env (n_rdtsc c + 2 * k + 1) - rdtsc_val env (n_rdtsc c + 2 * k))),
      c\<lparr>n_rdtsc := n_rdtsc c + 2 * (count - i), n_pread := n_pread c + (count - i)\<rparr>)"
proof (induction "count - i" arbitrary: i rc c)
  case 0
  then show ?case by (simp add: read_loop_done)
next
  case (Suc n)
  from Suc.hyps(2) have lt: "i < count" and n: "n = count - Suc i" by simp_all
  from Suc.prems Suc.hyps(2) have ok0: "word_of_int (pread_res env (n_pread c)) = S"
    by (metis add.right_neutral zero_less_Suc)
  let ?c = "c\<lparr>n_rdtsc := n_rdtsc c + 2, n_pread := Suc (n_pread c)\<rparr>"
  have rest: "\<forall>k < count - Suc i. word_of_int (pread_res env (n_pread ?c + k)) = S"
  proof (intro allI impI)
    fix k assume "k < count - Suc i"
    then have "Suc k < count - i" by simp
    with Suc.prems have "word_of_int (pread_res env (n_pread c + Suc k)) = S" by blast
    then show "word_of_int (pread_res env (n_pread ?c + k)) = S" by simp
  qed
  note ih = Suc.hyps(1) [OF n rest]
  show ?case
    apply (simp only: read_loop_step [OF lt ok0] read_once_ok [OF ok0] prod.case sum.sel ih)
    apply (simp add: Suc.hyps(2) [symmetric] n [symmetric] upt_0_Suc comp_def
        sum.lessThan_Suc_shift algebra_simps del: upt_Suc sum.lessThan_Suc)
    done
qed

lemma read_loop_fails_at:
  "m < count - i \<Longrightarrow>
   \<forall>k < m. word_of_int (pread_res env (n_pread c + k)) = S \<Longrightarrow>
   word_of_int (pread_res env (n_pread c + m)) \<noteq> S \<Longrightarrow>
   read_loop env file S inc count i rc c =
     (map (\<lambda>k. EPread file (unat S) (read_filePos (i + k) inc) (pread_res env (n_pread c + k)))
        [0..<m]
      @ [EPread file (unat S) (read_filePos (i + m) inc) (pread_res env (n_pread c + m)),
         EPrintf (ShortRead S (word_of_int (pread_res env (n_pread c + m)))),
         EPerror ''Read'', EExit (- 1)],
      Inl (- 1),
      c\<lparr>n_rdtsc := n_rdtsc c + 2 * m + 1, n_pread := n_pread c + m + 1\<rparr>)"
proof (induction m arbitrary: i rc c)
  case 0
  then have lt: "i < count" and bad: "word_of_int (pread_res env (n_pread c)) \<noteq> S" by simp_all
  show ?case
    unfolding read_loop_fail [OF lt bad] read_once_fail [OF bad] by simp
next
  case (Suc m)
  from Suc.prems(1) have lt: "i < count" and m: "m < count - Suc i" by simp_all
  from Suc.prems(2) have ok0: "word_of_int (pread_res env (n_pread c)) = S"
    by (metis add.right_neutral zero_less_Suc)
  let ?c = "c\<lparr>n_rdtsc := n_rdtsc c + 2, n_pread := Suc (n_pread c)\<rparr>"
  have rest: "\<forall>k < m. word_of_int (pread_res env (n_pread ?c + k)) = S"
  proof (intro allI impI)
    fix k assume "k < m"
    then have "Suc k < Suc m" by simp
    with Suc.prems(2) have "word_of_int (pread_res env (n_pread c + Suc k)) = S" by blast
    then show "word_of_int (pread_res env (n_pread ?c + k)) = S" by simp
  qed
  from Suc.prems(3) have bad: "word_of_int (pread_res env (n_pread ?c + m)) \<noteq> S" by simp
  note ih = Suc.IH [OF m rest bad]
  show ?case
    apply (simp only: read_loop_step [OF lt ok0] read_once_ok [OF ok0] prod.case sum.sel ih)
    apply (simp add: upt_0_Suc comp_def algebra_simps del: upt_Suc)
    done
qed

lemma first_failure:
  fixes n :: nat
  shows "(\<forall>k < n. P k) \<or> (\<exists>m < n. (\<forall>k < m. P k) \<and> \<not> P m)"
proof (cases "\<forall>k < n. P k")
  case True
  then show ?thesis by simp
next
  case False
  then obtain j where j: "j < n" "\<not> P j" by blast
  then obtain m where m: "\<not> P m" "\<forall>k < m. P k"
    using exists_least_iff [of "\<lambda>j. \<not> P j"] by auto
  with j(2) have "m \<le> j" by (meson not_le)
  with j(1) have "m < n" by simp
  with m have "\<exists>m < n. (\<forall>k < m. P k) \<and> \<not> P m" by blast
  then show ?thesis ..
qed

lemma write_count_small: "e < 20 \<Longrightarrow> write_count (push_bit e 1) = 100"
  by (simp only: same_count read_count_small)

lemma write_count_large: "20 \<le> e \<Longrightarrow> e < 32 \<Longrightarrow> write_count (push_bit e 1) = 3"
  by (simp only: same_count read_count_large)

lemma write_extent:
  assumes "minExp \<le> e" and "e \<le> maxExp" and "k \<le> write_count (push_bit e 1)"
  shows "k * 2 ^ e \<le> write_count (push_bit e 1) * 2 ^ e"
    and "write_count (push_bit e 1) * 2 ^ e \<le> 3 * 2 ^ 28"
proof -
  show "k * 2 ^ e \<le> write_count (push_bit e 1) * 2 ^ e"
    using assms(3) by simp
  show "write_count (push_bit e 1) * 2 ^ e \<le> 3 * 2 ^ 28"
  proof (cases "e < 20")
    case True
    then have "(2::nat) ^ e \<le> 2 ^ 19" by (intro power_increasing) simp_all
    then have "100 * (2::nat) ^ e \<le> 100 * 2 ^ 19" by (rule mult_le_mono2)
    then show ?thesis unfolding write_count_small [OF True] by simp
  next
    case False
    with assms have c: "write_count (push_bit e 1) = 3"
      by (intro write_count_large) (simp_all add: maxExp_def)
    from assms have "(2::nat) ^ e \<le> 2 ^ 28" by (intro power_increasing) (simp_all add: maxExp_def)
    then show ?thesis unfolding c by simp
  qed
qed

lemma write_filePos_exact:
  assumes "minExp \<le> e" and "e \<le> maxExp" and "k \<le> write_count (push_bit e 1)"
  shows "unat (word_of_nat k * (push_bit e 1 :: u32)) = k * 2 ^ e"
proof -
  from write_extent [OF assms] have "k * 2 ^ e \<le> 3 * 2 ^ 28" by (rule order_trans)
  then have lt: "k * 2 ^ e < 2 ^ 32" by simp
  have "word_of_nat k * (push_bit e 1 :: u32) = word_of_nat (k * 2 ^ e)"
    by (simp add: push_bit_eq_mult)
  then have "unat (word_of_nat k * (push_bit e 1 :: u32)) = (k * 2 ^ e) mod 2 ^ 32"
    by (simp only: unat_of_nat) simp
  with lt show ?thesis by simp
qed

section \<open>The transfers and the ranges of a run\<close>

lemma transfers_append [simp]: "transfers (xs @ ys) = transfers xs @ transfers ys"
  by (simp add: transfers_def)

lemma transfers_Cons [simp]: "transfers (ev # evs) = transfer_of ev @ transfers evs"
  by (simp add: transfers_def)

lemma transfers_Nil [simp]: "transfers [] = []"
  by (simp add: transfers_def)

lemma pwrite_ranges_append [simp]:
  "pwrite_ranges (xs @ ys) = pwrite_ranges xs @ pwrite_ranges ys"
  by (simp add: pwrite_ranges_def)

lemma pwrite_ranges_Cons [simp]: "pwrite_ranges (ev # evs) = pwrite_range ev @ pwrite_ranges evs"
  by (simp add: pwrite_ranges_def)

lemma pwrite_ranges_Nil [simp]: "pwrite_ranges [] = []"
  by (simp add: pwrite_ranges_def)

lemma pwrite_ranges_concat:
  "(\<And>x. pwrite_ranges (F x) = [G x]) \<Longrightarrow> pwrite_ranges (concat (map F xs)) = map G xs"
  by (induction xs) simp_all

lemma write_once_advances:
  "write_once env fd S v c = (evs, Inr v', c') \<Longrightarrow> filePos v' = filePos v + S"
  by (cases "pwrite_res env (n_pwrite c) = int (unat S)")
     (auto simp add: write_once_ok write_once_fail)

section \<open>One transfer size of the write sweep\<close>

lemma write_size_open_failed:
  "open_res env (n_open c) = - 1 \<Longrightarrow>
   write_size env filename ops e c =
     ([EOpen filename ({O_WRONLY, O_CREAT} \<union> ops) (- 1), EPerror ''Opening file failed'',
       EExit (- 1)], Inl (- 1), c\<lparr>n_open := Suc (n_open c)\<rparr>)"
  by (simp add: write_size_def sys_open_def)

lemma write_size_opened:
  "open_res env (n_open c) \<noteq> - 1 \<Longrightarrow>
   write_size env filename ops e c =
     (case write_loop env (open_res env (n_open c)) (push_bit e 1) (write_count (push_bit e 1)) 0
             \<lparr>filePos = 0, writeCycles = 0, fsyncCycles = 0\<rparr> (c\<lparr>n_open := Suc (n_open c)\<rparr>) of
        (evs, Inl code, c2) \<Rightarrow>
          (EOpen filename ({O_WRONLY, O_CREAT} \<union> ops) (open_res env (n_open c)) # evs,
           Inl code, c2)
      | (evs, Inr v, c2) \<Rightarrow>
          (EOpen filename ({O_WRONLY, O_CREAT} \<union> ops) (open_res env (n_open c)) # evs @
             [EClose (open_res env (n_open c)) (close_res env (n_close c2)),
              ERemove filename (remove_res env (n_remove c2)),
              EPrintf (write_row (push_bit e 1) (write_count (push_bit e 1)) v)], Inr (),
           c2\<lparr>n_close := Suc (n_close c2), n_remove := Suc (n_remove c2)\<rparr>))"
  by (simp add: write_size_def sys_open_def sys_close_def std_remove_def Let_def
      split: prod.split sum.split
      del: push_bit_of_1)

text \<open>
  Claim C5. When the iteration for a write size \<open>S\<close> completes, the last thing it does
  is print the row, and the bandwidth in the row is \<open>S / (toSeconds (W + F) / count) / 1e6\<close>,
  where \<open>W\<close> is the sum over the repetitions of the cycles between the reading before
  \<open>pwrite\<close> and the reading before \<open>fsync\<close>, and \<open>F\<close> the sum of the cycles between the
  reading before and the reading after \<open>fsync\<close>: the cost of the sync is part of the
  denominator. The two latencies of the row are \<open>toSeconds W / count\<close> and
  \<open>toSeconds F / count\<close>. The cycle sums are \<open>uint64_t\<close> sums. When the iteration
  aborts, no row is printed: its last event is the \<open>exit\<close>.
\<close>

theorem write_bandwidth_includes_fsync:
  "(let writeSize = (push_bit e 1 :: u32);
        count = write_count writeSize;
        t = rdtsc_val env;
        b = n_rdtsc c;
        W = (\<Sum>k<count. t (b + 3 * k + 1) - t (b + 3 * k));
        F = (\<Sum>k<count. t (b + 3 * k + 2) - t (b + 3 * k + 1))
    in case write_size env filename ops e c of
         (evs, Inr u, c') \<Rightarrow>
           last evs = EPrintf (WriteRow writeSize
             (Div (Div (OfU32 writeSize) (Div (ToSeconds (W + F)) (OfInt count))) (Lit 1000000))
             (Div (ToSeconds W) (OfInt count))
             (Div (ToSeconds F) (OfInt count)))
       | (evs, Inl code, c') \<Rightarrow> last evs = EExit code)"
proof (cases "open_res env (n_open c) = - 1")
  case True
  then show ?thesis by (simp add: write_size_open_failed Let_def)
next
  case False
  let ?S = "push_bit e 1 :: u32"
  let ?count = "write_count ?S"
  let ?c = "c\<lparr>n_open := Suc (n_open c)\<rparr>"
  consider (all) "\<forall>k < ?count. pwrite_res env (n_pwrite ?c + k) = int (unat ?S)"
    | (bad) m where "m < ?count" "\<forall>k < m. pwrite_res env (n_pwrite ?c + k) = int (unat ?S)"
        "pwrite_res env (n_pwrite ?c + m) \<noteq> int (unat ?S)"
    using first_failure [of ?count "\<lambda>k. pwrite_res env (n_pwrite ?c + k) = int (unat ?S)"] by blast
  then show ?thesis
  proof cases
    case all
    then have a: "\<forall>k < ?count - 0. pwrite_res env (n_pwrite ?c + k) = int (unat ?S)" by simp
    show ?thesis
      unfolding write_size_opened [OF False] write_loop_all_ok [OF a]
      by (simp add: Let_def write_row_def del: push_bit_of_1)
  next
    case bad
    from bad(1) have lt: "m < ?count - 0" by simp
    show ?thesis
      unfolding write_size_opened [OF False] write_loop_fails_at [OF lt bad(2,3)]
      by (simp add: Let_def del: push_bit_of_1)
  qed
qed

theorem write_bandwidth_includes_fsync_witness:
  "write_size (steady 1048576) ''/tmp/benchmark.tmp'' {O_DIRECT, O_SYNC} 20 no_calls
   = ([EOpen ''/tmp/benchmark.tmp'' {O_WRONLY, O_CREAT, O_DIRECT, O_SYNC} 3,
       EPwrite 3 1048576 0 1048576, EFsync 3 0,
       EPwrite 3 1048576 1048576 1048576, EFsync 3 0,
       EPwrite 3 1048576 2097152 1048576, EFsync 3 0,
       EClose 3 0, ERemove ''/tmp/benchmark.tmp'' 0,
       EPrintf (WriteRow 1048576
         (Div (Div (OfU32 1048576) (Div (ToSeconds (3 + 3)) (OfInt 3))) (Lit 1000000))
         (Div (ToSeconds 3) (OfInt 3)) (Div (ToSeconds 3) (OfInt 3)))],
      Inr (),
      \<lparr>n_rdtsc = 9, n_memalign = 0, n_open = 1, n_pwrite = 3, n_write = 0, n_pread = 0,
         n_fsync = 3, n_close = 1, n_remove = 1\<rparr>)"
  using write_bandwidth_includes_fsync [where e = 20 and env = "steady 1048576"
      and c = no_calls and filename = "''/tmp/benchmark.tmp''" and ops = "{O_DIRECT, O_SYNC}"]
  by (simp add: steady_def write_count_def smallBigThreshold_def largeCount_def
      write_size_def sys_open_def write_row_def
      write_loop.simps write_once_def rdtsc_def pwrite_def
      fsync_def sys_close_def std_remove_def no_calls_def numeral_3_eq_3 insert_commute)

section \<open>Resources along a run\<close>

declare write_sizes.simps [simp del]
declare read_sizes.simps [simp del]

lemma replay_Nil [simp]: "replay p [] s = s"
  by (simp add: replay_def)

lemma replay_Cons [simp]: "replay p (ev # evs) s = replay p evs (effect p ev s)"
  by (simp add: replay_def)

lemma replay_append [simp]: "replay p (xs @ ys) s = replay p ys (replay p xs s)"
  by (simp add: replay_def)

lemma holds_at_append [simp]:
  "holds_at sel P p s (xs @ ys) = (holds_at sel P p s xs \<and> holds_at sel P p (replay p xs s) ys)"
  by (induction xs arbitrary: s) auto





lemma fst_case_append:
  "fst (case x of (a, b) \<Rightarrow> (f a, g a b)) = f (fst x)"
  by (cases x) simp

lemma write_loop_quiet:
  "\<forall>ev \<in> set (fst (write_loop env fd S count i v c)). \<not> touches ev \<and> \<not> is_row ev \<and> path_of ev = []"
proof (induction "count - i" arbitrary: i v c)
  case 0
  then show ?case by (simp add: write_loop_done)
next
  case (Suc n)
  from Suc.hyps(2) have lt: "i < count" and n: "n = count - Suc i" by simp_all
  show ?case
  proof (cases "pwrite_res env (n_pwrite c) = int (unat S)")
    case True
    show ?thesis
      unfolding write_loop_step [OF lt True] write_once_ok [OF True]
      using Suc.hyps(1) [OF n] by (simp add: fst_case_append)
  next
    case False
    show ?thesis
      unfolding write_loop_fail [OF lt False] write_once_fail [OF False] by simp
  qed
qed

lemma read_loop_quiet:
  "\<forall>ev \<in> set (fst (read_loop env fd S step count i rc c)). \<not> touches ev \<and> \<not> is_row ev \<and> path_of ev = []"
proof (induction "count - i" arbitrary: i rc c)
  case 0
  then show ?case by (simp add: read_loop_done)
next
  case (Suc n)
  from Suc.hyps(2) have lt: "i < count" and n: "n = count - Suc i" by simp_all
  show ?case
  proof (cases "word_of_int (pread_res env (n_pread c)) = S")
    case True
    show ?thesis
      unfolding read_loop_step [OF lt True] read_once_ok [OF True]
      using Suc.hyps(1) [OF n] by (simp add: fst_case_append)
  next
    case False
    show ?thesis
      unfolding read_loop_fail [OF lt False] read_once_fail [OF False] by simp
  qed
qed

lemma write_size_shape:
  "\<exists>fd evs. (\<forall>ev \<in> set evs. \<not> touches ev \<and> \<not> is_row ev \<and> path_of ev = []) \<and>
     (write_size env filename ops e c
        = ([EOpen filename ({O_WRONLY, O_CREAT} \<union> ops) (- 1), EPerror ''Opening file failed'',
            EExit (- 1)], Inl (- 1), c\<lparr>n_open := Suc (n_open c)\<rparr>)
      \<or> fd \<noteq> - 1 \<and> (\<exists>code c'. write_size env filename ops e c
        = (EOpen filename ({O_WRONLY, O_CREAT} \<union> ops) fd # evs, Inl code, c'))
      \<or> fd \<noteq> - 1 \<and> (\<exists>row c' rc rr. is_row (EPrintf row) \<and> write_size env filename ops e c
        = (EOpen filename ({O_WRONLY, O_CREAT} \<union> ops) fd # evs
             @ [EClose fd rc, ERemove filename rr, EPrintf row], Inr (), c')))"
proof (cases "open_res env (n_open c) = - 1")
  case True
  then show ?thesis
    by (intro exI [of _ "- 1"] exI [of _ "[]"]) (simp add: write_size_open_failed)
next
  case False
  let ?L = "write_loop env (open_res env (n_open c)) (push_bit e 1) (write_count (push_bit e 1)) 0
             \<lparr>filePos = 0, writeCycles = 0, fsyncCycles = 0\<rparr> (c\<lparr>n_open := Suc (n_open c)\<rparr>)"
  obtain evs res c' where L: "?L = (evs, res, c')" by (cases ?L) auto
  have q: "\<forall>ev \<in> set evs. \<not> touches ev \<and> \<not> is_row ev \<and> path_of ev = []"
    using write_loop_quiet [of env "open_res env (n_open c)" "push_bit e 1"
       "write_count (push_bit e 1)" 0 "\<lparr>filePos = 0, writeCycles = 0, fsyncCycles = 0\<rparr>"
       "c\<lparr>n_open := Suc (n_open c)\<rparr>"] L by simp
  show ?thesis
  proof (cases res)
    case (Inl code)
    with False q L show ?thesis
      unfolding write_size_opened [OF False] by (auto simp del: push_bit_of_1)
  next
    case (Inr v)
    have "is_row (EPrintf (write_row (push_bit e 1) (write_count (push_bit e 1)) v))"
      by (simp add: write_row_def Let_def)
    with Inr False q L show ?thesis
      unfolding write_size_opened [OF False] by (auto simp del: push_bit_of_1)
  qed
qed





lemma write_intro_quiet:
  "\<forall>ev \<in> set (write_intro filename cm). \<not> touches ev \<and> \<not> is_io ev \<and> \<not> is_row ev \<and> path_of ev = []"
  by (cases cm) (simp_all add: write_intro_def)

lemma read_intro_quiet:
  "\<forall>ev \<in> set (read_intro filename cm). \<not> touches ev \<and> \<not> is_io ev \<and> \<not> is_row ev \<and> path_of ev = []"
  by (cases cm) (simp_all add: read_intro_def)


lemma read_size_quiet:
  "\<forall>ev \<in> set (fst (read_size env fd e c)). \<not> touches ev \<and> path_of ev = []"
proof -
  let ?L = "read_loop env fd (push_bit e 1) (filePosIncrement (read_count (push_bit e 1)))
     (read_count (push_bit e 1)) 0 0 c"
  obtain evs res c' where L: "?L = (evs, res, c')" by (cases ?L) auto
  have q: "\<forall>ev \<in> set evs. \<not> touches ev \<and> \<not> is_row ev \<and> path_of ev = []"
    using read_loop_quiet [of env fd "push_bit e 1" "filePosIncrement (read_count (push_bit e 1))"
       "read_count (push_bit e 1)" 0 0 c] L by simp
  from L q show ?thesis
    by (cases res) (auto simp add: read_size_def Let_def simp del: push_bit_of_1)
qed

lemma read_sizes_quiet:
  "\<forall>ev \<in> set (fst (read_sizes env fd e c)). \<not> touches ev \<and> path_of ev = []"
proof (induction "Suc maxExp - e" arbitrary: e c)
  case 0
  then have "\<not> e \<le> maxExp" by simp
  then show ?case by (simp add: read_sizes.simps [of env fd e c])
next
  case (Suc n)
  from Suc.hyps(2) have le: "e \<le> maxExp" and n: "n = Suc maxExp - Suc e" by simp_all
  obtain evs res c' where rs: "read_size env fd e c = (evs, res, c')"
    by (cases "read_size env fd e c") auto
  from read_size_quiet [of env fd e c] rs
  have q: "\<forall>ev \<in> set evs. \<not> touches ev \<and> path_of ev = []" by simp
  show ?case
  proof (cases res)
    case (Inl code)
    with rs q le show ?thesis by (simp add: read_sizes.simps [of env fd e c])
  next
    case (Inr u)
    obtain evs' res' c'' where r: "read_sizes env fd (Suc e) c' = (evs', res', c'')"
      by (cases "read_sizes env fd (Suc e) c'") auto
    from Suc.hyps(1) [OF n, of c'] r
    have q': "\<forall>ev \<in> set evs'. \<not> touches ev \<and> path_of ev = []" by simp
    from Inr rs q q' r le show ?thesis
      by (auto simp add: read_sizes.simps [of env fd e c])
  qed
qed


section \<open>The program as a whole\<close>

lemma main_usage:
  "3 \<le> length argv \<Longrightarrow>
   main env argv = ([EPrintf UsageAbout, EPrintf UsageLine, EExit (- 1)], Inl (- 1))"
  by (simp add: main_def)

lemma main_run:
  "\<not> 3 \<le> length argv \<Longrightarrow>
   main env argv =
     (case benchmark_write env (if length argv = 2 then argv ! 1 else ''/tmp/benchmark.tmp'')
             (Some ''With O_DIRECT|O_SYNC'') {O_DIRECT, O_SYNC} no_calls of
        (evs, Inl code, c) \<Rightarrow> (evs, Inl code)
      | (evs, Inr u, c) \<Rightarrow>
          (case benchmark_read env (if length argv = 2 then argv ! 1 else ''/tmp/benchmark.tmp'')
                  (Some ''With O_DIRECT|O_SYNC'') {O_DIRECT, O_SYNC} c of
             (evs', Inl code, c') \<Rightarrow> (evs @ evs', Inl code)
           | (evs', Inr u', c') \<Rightarrow> (evs @ evs', Inr 0)))"
  by (simp add: main_def Let_def)

section \<open>A run in which every call succeeds\<close>

declare transfer_sizes.simps [simp del]

lemma transfer_sizes_step:
  "e \<le> maxExp \<Longrightarrow>
   transfer_sizes e = replicate (write_count (push_bit e 1)) (int (unat (push_bit e 1 :: u32)))
           @ transfer_sizes (Suc e)"
  by (subst transfer_sizes.simps) simp

lemma write_sizes_completes:
  assumes op: "\<forall>k. open_res env k \<noteq> - 1"
  shows "\<forall>k < length (transfer_sizes e). pwrite_res env (n_pwrite c + k) = transfer_sizes e ! k \<Longrightarrow>
     fst (snd (write_sizes env filename ops e c)) = Inr ()
     \<and> n_pread (snd (snd (write_sizes env filename ops e c))) = n_pread c"
proof (induction "Suc maxExp - e" arbitrary: e c)
  case 0
  then have "\<not> e \<le> maxExp" by simp
  then show ?case by (simp add: write_sizes.simps [of env filename ops e c])
next
  case (Suc n)
  from Suc.hyps(2) have le: "e \<le> maxExp" and n: "n = Suc maxExp - Suc e" by simp_all
  let ?S = "push_bit e 1 :: u32"
  let ?count = "write_count ?S"
  let ?c1 = "c\<lparr>n_open := Suc (n_open c)\<rparr>"
  note ts = transfer_sizes_step [OF le]
  have a: "\<forall>k < ?count - 0. pwrite_res env (n_pwrite ?c1 + k) = int (unat ?S)"
  proof (intro allI impI)
    fix k assume "k < ?count - 0"
    then have k: "k < ?count" by simp
    then have "k < length (transfer_sizes e)" unfolding ts by simp
    with Suc.prems have "pwrite_res env (n_pwrite c + k) = transfer_sizes e ! k" by blast
    also have "\<dots> = int (unat ?S)" unfolding ts using k by (simp add: nth_append del: push_bit_of_1)
    finally show "pwrite_res env (n_pwrite ?c1 + k) = int (unat ?S)" by simp
  qed
  from op have o: "open_res env (n_open c) \<noteq> - 1" by blast
  let ?c2 = "?c1\<lparr>n_rdtsc := n_rdtsc ?c1 + 3 * (?count - 0), n_pwrite := n_pwrite ?c1 + (?count - 0),
        n_fsync := n_fsync ?c1 + (?count - 0), n_close := Suc (n_close ?c1),
        n_remove := Suc (n_remove ?c1)\<rparr>"
  have ws: "\<exists>evs. write_size env filename ops e c = (evs, Inr (), ?c2)"
    unfolding write_size_opened [OF o] write_loop_all_ok [OF a] by simp
  then obtain evs where ws': "write_size env filename ops e c = (evs, Inr (), ?c2)" by blast
  have rest: "\<forall>k < length (transfer_sizes (Suc e)).
      pwrite_res env (n_pwrite ?c2 + k) = transfer_sizes (Suc e) ! k"
  proof (intro allI impI)
    fix k assume k: "k < length (transfer_sizes (Suc e))"
    then have "?count + k < length (transfer_sizes e)" unfolding ts by simp
    with Suc.prems have "pwrite_res env (n_pwrite c + (?count + k)) = transfer_sizes e ! (?count + k)"
      by blast
    also have "\<dots> = transfer_sizes (Suc e) ! k"
      unfolding ts by (simp add: nth_append del: push_bit_of_1)
    finally show "pwrite_res env (n_pwrite ?c2 + k) = transfer_sizes (Suc e) ! k"
      by (simp add: add.assoc)
  qed
  note ih = Suc.hyps(1) [OF n rest]
  obtain evs' res' c'' where r: "write_sizes env filename ops (Suc e) ?c2 = (evs', res', c'')"
    by (cases "write_sizes env filename ops (Suc e) ?c2") auto
  from ih r ws' le show ?case
    by (simp add: write_sizes.simps [of env filename ops e c])
qed

lemma read_sizes_completes:
  "\<forall>k < length (transfer_sizes e). pread_res env (n_pread c + k) = transfer_sizes e ! k \<Longrightarrow>
     fst (snd (read_sizes env fd e c)) = Inr ()"
proof (induction "Suc maxExp - e" arbitrary: e c)
  case 0
  then have "\<not> e \<le> maxExp" by simp
  then show ?case by (simp add: read_sizes.simps [of env fd e c])
next
  case (Suc n)
  from Suc.hyps(2) have le: "e \<le> maxExp" and n: "n = Suc maxExp - Suc e" by simp_all
  let ?S = "push_bit e 1 :: u32"
  let ?count = "read_count ?S"
  note ts = transfer_sizes_step [OF le, unfolded same_count]
  have a: "\<forall>k < ?count - 0. word_of_int (pread_res env (n_pread c + k)) = ?S"
  proof (intro allI impI)
    fix k assume "k < ?count - 0"
    then have k: "k < ?count" by simp
    then have "k < length (transfer_sizes e)" unfolding ts by simp
    with Suc.prems have "pread_res env (n_pread c + k) = transfer_sizes e ! k" by blast
    also have "\<dots> = int (unat ?S)" unfolding ts using k by (simp add: nth_append del: push_bit_of_1)
    finally have "pread_res env (n_pread c + k) = int (unat ?S)" .
    then show "word_of_int (pread_res env (n_pread c + k)) = ?S" by (simp only: word_of_int_uint uint_nat [symmetric])
  qed
  let ?c2 = "c\<lparr>n_rdtsc := n_rdtsc c + 2 * (?count - 0), n_pread := n_pread c + (?count - 0)\<rparr>"
  have rs: "\<exists>evs. read_size env fd e c = (evs, Inr (), ?c2)"
    unfolding read_size_def Let_def read_loop_all_ok [OF a] by simp
  then obtain evs where rs': "read_size env fd e c = (evs, Inr (), ?c2)" by blast
  have rest: "\<forall>k < length (transfer_sizes (Suc e)).
      pread_res env (n_pread ?c2 + k) = transfer_sizes (Suc e) ! k"
  proof (intro allI impI)
    fix k assume k: "k < length (transfer_sizes (Suc e))"
    then have "?count + k < length (transfer_sizes e)" unfolding ts by simp
    with Suc.prems have "pread_res env (n_pread c + (?count + k)) = transfer_sizes e ! (?count + k)"
      by blast
    also have "\<dots> = transfer_sizes (Suc e) ! k"
      unfolding ts by (simp add: nth_append del: push_bit_of_1)
    finally show "pread_res env (n_pread ?c2 + k) = transfer_sizes (Suc e) ! k"
      by (simp add: add.assoc)
  qed
  note ih = Suc.hyps(1) [OF n rest]
  obtain evs' res' c'' where r: "read_sizes env fd (Suc e) ?c2 = (evs', res', c'')"
    by (cases "read_sizes env fd (Suc e) ?c2") auto
  from ih r rs' le show ?case
    by (simp add: read_sizes.simps [of env fd e c])
qed

lemma benchmark_write_completes:
  assumes "memalign_res env = memalign_res obliging" and "open_res env = open_res obliging"
    and "pwrite_res env = pwrite_res obliging" and "n_pwrite c = 0"
  shows "fst (snd (benchmark_write env filename cm ops c)) = Inr ()
     \<and> n_pread (snd (snd (benchmark_write env filename cm ops c))) = n_pread c"
proof -
  let ?c1 = "c\<lparr>n_memalign := Suc (n_memalign c)\<rparr>"
  have op: "\<forall>k. open_res env k \<noteq> - 1" by (simp add: assms(2) obliging_def)
  have tr: "\<forall>k < length (transfer_sizes minExp).
      pwrite_res env (n_pwrite ?c1 + k) = transfer_sizes minExp ! k"
    using assms(4) by (simp add: assms(3) obliging_def size_of_turn_def)
  note ws = write_sizes_completes [OF op tr, of filename ops]
  obtain evs res c2 where W: "write_sizes env filename ops minExp ?c1 = (evs, res, c2)"
    by (cases "write_sizes env filename ops minExp ?c1") auto
  with ws have "res = Inr ()" and "n_pread c2 = n_pread c" by simp_all
  with W show ?thesis
    by (simp add: benchmark_write_def posix_memalign_def assms(1) obliging_def)
qed

lemma benchmark_read_completes:
  assumes "memalign_res env = memalign_res obliging" and "open_res env = open_res obliging"
    and "write_res env = write_res obliging" and "pread_res env = pread_res obliging"
    and "n_pread c = 0"
  shows "fst (snd (benchmark_read env filename cm ops c)) = Inr ()"
proof -
  let ?d1 = "c\<lparr>n_memalign := Suc (n_memalign c)\<rparr>"
  let ?d2 = "?d1\<lparr>n_open := Suc (n_open ?d1)\<rparr>"
  let ?d3 = "?d2\<lparr>n_write := Suc (n_write ?d2)\<rparr>"
  let ?d4 = "?d3\<lparr>n_fsync := Suc (n_fsync ?d3)\<rparr>"
  have tr': "\<forall>k < length (transfer_sizes minExp).
      pread_res env (n_pread ?d4 + k) = transfer_sizes minExp ! k"
    using assms(5) by (simp add: assms(4) obliging_def size_of_turn_def)
  note rs = read_sizes_completes [OF tr', of 3]
  obtain evs' res' c3 where R: "read_sizes env 3 minExp ?d4 = (evs', res', c3)"
    by (cases "read_sizes env 3 minExp ?d4") auto
  with rs have "res' = Inr ()" by simp
  with R show ?thesis
    by (simp add: benchmark_read_def posix_memalign_def sys_open_def sys_write_def fsync_def
        sys_close_def std_remove_def assms(1,2,3) obliging_def)
qed

lemma main_completes:
  assumes "memalign_res env = memalign_res obliging" and "open_res env = open_res obliging"
    and "pwrite_res env = pwrite_res obliging" and "write_res env = write_res obliging"
    and "pread_res env = pread_res obliging" and "length argv < 3"
  shows "snd (main env argv) = Inr 0"
proof -
  let ?f = "if length argv = 2 then argv ! 1 else ''/tmp/benchmark.tmp''"
  let ?cm = "Some ''With O_DIRECT|O_SYNC''"
  obtain evs res c2 where W: "benchmark_write env ?f ?cm {O_DIRECT, O_SYNC} no_calls
      = (evs, res, c2)"
    by (cases "benchmark_write env ?f ?cm {O_DIRECT, O_SYNC} no_calls") auto
  have "n_pwrite no_calls = 0" by (simp add: no_calls_def)
  from benchmark_write_completes [OF assms(1,2,3) this, of ?f ?cm "{O_DIRECT, O_SYNC}"] W
  have res: "res = Inr ()" and np: "n_pread c2 = 0" by (simp_all add: no_calls_def)
  obtain evs' res' c3 where R: "benchmark_read env ?f ?cm {O_DIRECT, O_SYNC} c2
      = (evs', res', c3)"
    by (cases "benchmark_read env ?f ?cm {O_DIRECT, O_SYNC} c2") auto
  with benchmark_read_completes [OF assms(1,2,4,5) np, of ?f ?cm "{O_DIRECT, O_SYNC}"]
  have res': "res' = Inr ()" by simp
  from assms(6) have n3: "\<not> 3 \<le> length argv" by simp
  show ?thesis
    unfolding main_run [OF n3] W using res R res' by simp
qed

section \<open>The target path\<close>

lemma paths_Nil [simp]: "paths [] = []"
  by (simp add: paths_def)

lemma paths_Cons [simp]: "paths (ev # evs) = path_of ev @ paths evs"
  by (simp add: paths_def)

lemma paths_append [simp]: "paths (xs @ ys) = paths xs @ paths ys"
  by (simp add: paths_def)

lemma paths_quiet: "\<forall>ev \<in> set evs. path_of ev = [] \<Longrightarrow> paths evs = []"
  by (induction evs) simp_all

lemma write_size_paths:
  "\<exists>ps. paths (fst (write_size env filename ops e c)) = filename # ps \<and> set ps \<subseteq> {filename}"
proof -
  obtain fd evs where q: "\<forall>ev \<in> set evs. \<not> touches ev \<and> \<not> is_row ev \<and> path_of ev = []"
    and sh: "write_size env filename ops e c
        = ([EOpen filename ({O_WRONLY, O_CREAT} \<union> ops) (- 1), EPerror ''Opening file failed'',
            EExit (- 1)], Inl (- 1), c\<lparr>n_open := Suc (n_open c)\<rparr>)
      \<or> fd \<noteq> - 1 \<and> (\<exists>code c'. write_size env filename ops e c
        = (EOpen filename ({O_WRONLY, O_CREAT} \<union> ops) fd # evs, Inl code, c'))
      \<or> fd \<noteq> - 1 \<and> (\<exists>row c' rc rr. is_row (EPrintf row) \<and> write_size env filename ops e c
        = (EOpen filename ({O_WRONLY, O_CREAT} \<union> ops) fd # evs
             @ [EClose fd rc, ERemove filename rr, EPrintf row], Inr (), c'))"
    using write_size_shape [of env filename ops e c] by blast
  from q have "\<forall>ev \<in> set evs. path_of ev = []" by blast
  then have pq: "paths evs = []" by (rule paths_quiet)
  from sh pq show ?thesis by auto
qed

lemma write_sizes_paths:
  "set (paths (fst (write_sizes env filename ops e c))) \<subseteq> {filename}
   \<and> (e \<le> maxExp \<longrightarrow> (\<exists>ps. paths (fst (write_sizes env filename ops e c)) = filename # ps))"
proof (induction "Suc maxExp - e" arbitrary: e c)
  case 0
  then have "\<not> e \<le> maxExp" by simp
  then show ?case by (simp add: write_sizes.simps [of env filename ops e c])
next
  case (Suc n)
  from Suc.hyps(2) have le: "e \<le> maxExp" and n: "n = Suc maxExp - Suc e" by simp_all
  obtain evs res c' where ws: "write_size env filename ops e c = (evs, res, c')"
    by (cases "write_size env filename ops e c") auto
  from write_size_paths [of env filename ops e c] ws
  obtain ps where ps: "paths evs = filename # ps" "set ps \<subseteq> {filename}" by auto
  show ?case
  proof (cases res)
    case (Inl code)
    with ws ps le show ?thesis by (simp add: write_sizes.simps [of env filename ops e c])
  next
    case (Inr u)
    obtain evs' res' c'' where r: "write_sizes env filename ops (Suc e) c' = (evs', res', c'')"
      by (cases "write_sizes env filename ops (Suc e) c'") auto
    from Suc.hyps(1) [OF n, of c'] r have "set (paths evs') \<subseteq> {filename}" by simp
    with Inr ws ps r le show ?thesis
      by (simp add: write_sizes.simps [of env filename ops e c])
  qed
qed

lemma benchmark_write_paths:
  "set (paths (fst (benchmark_write env filename cm ops c))) \<subseteq> {filename}
   \<and> (memalign_res env (n_memalign c) = 0
        \<longrightarrow> (\<exists>ps. paths (fst (benchmark_write env filename cm ops c)) = filename # ps))"
proof -
  let ?c1 = "c\<lparr>n_memalign := Suc (n_memalign c)\<rparr>"
  have "\<forall>ev \<in> set (write_intro filename cm). path_of ev = []"
    using write_intro_quiet [of filename cm] by blast
  then have pi: "paths (write_intro filename cm) = []" by (rule paths_quiet)
  obtain evs res c2 where r: "write_sizes env filename ops minExp ?c1 = (evs, res, c2)"
    by (cases "write_sizes env filename ops minExp ?c1") auto
  have "minExp \<le> maxExp" by (simp add: minExp_def maxExp_def)
  with write_sizes_paths [of env filename ops minExp ?c1] r
  obtain ps where ps: "paths evs = filename # ps" "set (paths evs) \<subseteq> {filename}" by auto
  from r ps pi show ?thesis
    by (cases res) (auto simp add: benchmark_write_def posix_memalign_def Let_def)
qed

lemma benchmark_read_paths:
  "set (paths (fst (benchmark_read env filename cm ops c))) \<subseteq> {filename}"
proof -
  let ?c1 = "c\<lparr>n_memalign := Suc (n_memalign c)\<rparr>"
  let ?c2 = "?c1\<lparr>n_open := Suc (n_open ?c1)\<rparr>"
  let ?c3 = "?c2\<lparr>n_write := Suc (n_write ?c2)\<rparr>"
  let ?c4 = "?c3\<lparr>n_fsync := Suc (n_fsync ?c3)\<rparr>"
  let ?fd = "open_res env (n_open c)"
  have "\<forall>ev \<in> set (read_intro filename cm). path_of ev = []"
    using read_intro_quiet [of filename cm] by blast
  then have pi: "paths (read_intro filename cm) = []" by (rule paths_quiet)
  obtain evs res c5 where r: "read_sizes env ?fd minExp ?c4 = (evs, res, c5)"
    by (cases "read_sizes env ?fd minExp ?c4") auto
  from read_sizes_quiet [of env ?fd minExp ?c4] r
  have "\<forall>ev \<in> set evs. path_of ev = []" by simp
  then have pq: "paths evs = []" by (rule paths_quiet)
  from r pi pq show ?thesis
    by (cases res)
       (auto simp add: benchmark_read_def posix_memalign_def sys_open_def sys_write_def
          fsync_def sys_close_def std_remove_def Let_def)
qed

lemma main_paths:
  assumes "\<not> 3 \<le> length argv"
  shows "set (paths (fst (main env argv)))
           \<subseteq> {if length argv = 2 then argv ! 1 else ''/tmp/benchmark.tmp''}
      \<and> (memalign_res env 0 = 0 \<longrightarrow>
           (\<exists>ps. paths (fst (main env argv))
              = (if length argv = 2 then argv ! 1 else ''/tmp/benchmark.tmp'') # ps))"
proof -
  let ?f = "if length argv = 2 then argv ! 1 else ''/tmp/benchmark.tmp''"
  let ?cm = "Some ''With O_DIRECT|O_SYNC''"
  obtain evs res c1 where W: "benchmark_write env ?f ?cm {O_DIRECT, O_SYNC} no_calls
      = (evs, res, c1)"
    by (cases "benchmark_write env ?f ?cm {O_DIRECT, O_SYNC} no_calls") auto
  obtain evs' res' c2 where R: "benchmark_read env ?f ?cm {O_DIRECT, O_SYNC} c1
      = (evs', res', c2)"
    by (cases "benchmark_read env ?f ?cm {O_DIRECT, O_SYNC} c1") auto
  from benchmark_write_paths [of env ?f ?cm "{O_DIRECT, O_SYNC}" no_calls] W
  have w: "set (paths evs) \<subseteq> {?f}"
    and w': "memalign_res env 0 = 0 \<longrightarrow> (\<exists>ps. paths evs = ?f # ps)"
    by (simp_all add: no_calls_def)
  from benchmark_read_paths [of env ?f ?cm "{O_DIRECT, O_SYNC}" c1] R
  have r: "set (paths evs') \<subseteq> {?f}" by simp
  from w w' r W R show ?thesis
    unfolding main_run [OF assms]
    by (cases res; cases res') auto
qed

text \<open>
  Claim C8. With \<open>argc >= 3\<close> the program prints the two usage lines and calls \<open>exit\<close>
  with a status that is not 0, and that is the whole run: no file system call is made. With
  \<open>argc = 2\<close> the only path the run passes to \<open>open\<close> and \<open>std::remove\<close> is \<open>argv[1]\<close>,
  and with \<open>argc < 2\<close> it is \<open>/tmp/benchmark.tmp\<close>; that path is used as soon as the
  buffer of the write sweep has been allocated.
\<close>

theorem main_arguments:
  "(3 \<le> length argv \<longrightarrow>
      main env argv = ([EPrintf UsageAbout, EPrintf UsageLine, EExit (- 1)], Inl (- 1))
      \<and> exit_status (- 1) \<noteq> 0
      \<and> filter file_call (fst (main env argv)) = [])
   \<and> (length argv = 2 \<longrightarrow>
      set (paths (fst (main env argv))) \<subseteq> {argv ! 1}
      \<and> (memalign_res env 0 = 0 \<longrightarrow> (\<exists>ps. paths (fst (main env argv)) = argv ! 1 # ps)))
   \<and> (length argv < 2 \<longrightarrow>
      set (paths (fst (main env argv))) \<subseteq> {''/tmp/benchmark.tmp''}
      \<and> (memalign_res env 0 = 0 \<longrightarrow>
           (\<exists>ps. paths (fst (main env argv)) = ''/tmp/benchmark.tmp'' # ps)))"
proof (intro conjI impI)
  assume a: "3 \<le> length argv"
  then show "main env argv = ([EPrintf UsageAbout, EPrintf UsageLine, EExit (- 1)], Inl (- 1))"
    by (rule main_usage)
  show "exit_status (- 1) \<noteq> 0" by (simp add: exit_status_def)
  from a show "filter file_call (fst (main env argv)) = []" by (simp add: main_usage)
next
  assume a: "length argv = 2"
  then have n3: "\<not> 3 \<le> length argv" by simp
  from main_paths [OF n3, of env] a
  show "set (paths (fst (main env argv))) \<subseteq> {argv ! 1}" by simp
  assume "memalign_res env 0 = 0"
  with main_paths [OF n3, of env] a
  show "\<exists>ps. paths (fst (main env argv)) = argv ! 1 # ps" by simp
next
  assume a: "length argv < 2"
  then have n3: "\<not> 3 \<le> length argv" by simp
  from main_paths [OF n3, of env] a
  show "set (paths (fst (main env argv))) \<subseteq> {''/tmp/benchmark.tmp''}" by simp
  assume "memalign_res env 0 = 0"
  with main_paths [OF n3, of env] a
  show "\<exists>ps. paths (fst (main env argv)) = ''/tmp/benchmark.tmp'' # ps" by simp
qed

theorem main_arguments_witness:
  "3 \<le> length [''Benchmark'', ''a'', ''b'']
   \<and> main (steady 0) [''Benchmark'', ''a'', ''b'']
        = ([EPrintf UsageAbout, EPrintf UsageLine, EExit (- 1)], Inl (- 1))
   \<and> exit_status (- 1) = 255
   \<and> length [''Benchmark'', ''/mnt/disk/f''] = 2
   \<and> memalign_res ((steady 0)\<lparr>open_res := (\<lambda>k. - 1)\<rparr>) 0 = 0
   \<and> main ((steady 0)\<lparr>open_res := (\<lambda>k. - 1)\<rparr>) [''Benchmark'', ''/mnt/disk/f'']
        = ([EPrintf (WriteBanner ''/mnt/disk/f''), EPrintf (ExtraComment ''With O_DIRECT|O_SYNC''),
            ESetlocale, EPrintf WriteColumns, EMemalign 512 268435456 0,
            EOpen ''/mnt/disk/f'' {O_WRONLY, O_CREAT, O_DIRECT, O_SYNC} (- 1),
            EPerror ''Opening file failed'', EExit (- 1)], Inl (- 1))
   \<and> length [''Benchmark''] < 2
   \<and> paths (fst (main ((steady 0)\<lparr>open_res := (\<lambda>k. - 1)\<rparr>) [''Benchmark'']))
        = [''/tmp/benchmark.tmp'']"
  using main_arguments [of "[''Benchmark'', ''a'', ''b'']" "steady 0"]
    main_arguments [of "[''Benchmark'', ''/mnt/disk/f'']" "(steady 0)\<lparr>open_res := (\<lambda>k. - 1)\<rparr>"]
    main_arguments [of "[''Benchmark'']" "(steady 0)\<lparr>open_res := (\<lambda>k. - 1)\<rparr>"]
  by (simp add: main_def benchmark_write_def posix_memalign_def write_intro_def
      write_sizes.simps [of _ _ _ 9] write_size_open_failed minExp_def maxExp_def maxSize_def
      steady_def no_calls_def exit_status_def insert_commute Let_def)

section \<open>The value returned by fsync\<close>

lemma blur_pair [simp]: "blur (evs, r) = (map forget_fsync evs, r)"
  by (simp add: blur_def)














section \<open>The repetition count on the configured sizes\<close>

lemma count_rules_agree:
  "real (unat S) \<noteq> smallBigThreshold \<Longrightarrow>
   write_count S = claimed_count (unat S) \<and> read_count S = claimed_count (unat S)"
  by (simp add: write_count_def read_count_def claimed_count_def)

lemma count_rule_on_sweep:
  assumes "minExp \<le> e" and "e \<le> maxExp"
  shows "write_count (push_bit e 1)
           = (if real (unat (push_bit e 1 :: u32)) < smallBigThreshold then smallCount
              else largeCount)"
    and "real (unat (push_bit e 1 :: u32)) \<noteq> smallBigThreshold"
proof -
  from assms have e: "e < 32" by (simp add: maxExp_def)
  have u: "unat (push_bit e 1 :: u32) = 2 ^ e" using e by (rule unat_push_bit_1)
  have ne: "(2::nat) ^ e \<noteq> 1000000"
  proof (cases "e < 20")
    case True
    then have "(2::nat) ^ e \<le> 2 ^ 19" by (intro power_increasing) simp_all
    then show ?thesis by simp
  next
    case False
    then have "(2::nat) ^ 20 \<le> 2 ^ e" by (intro power_increasing) simp_all
    then show ?thesis by simp
  qed
  then have "real (2 ^ e) \<noteq> real 1000000" by (simp only: of_nat_eq_iff) simp
  then show r: "real (unat (push_bit e 1 :: u32)) \<noteq> smallBigThreshold"
    unfolding u smallBigThreshold_def by simp
  then show "write_count (push_bit e 1)
           = (if real (unat (push_bit e 1 :: u32)) < smallBigThreshold then smallCount
              else largeCount)"
    unfolding write_count_def by (simp del: push_bit_of_1)
qed

section \<open>Release of the resources\<close>




section \<open>Runs against a plan\<close>

lemma completed_append:
  "completed xs P \<Longrightarrow> completed ys Q \<Longrightarrow> completed (xs @ ys) (P @ Q)"
  by (auto simp add: completed_def)

lemma aborted_prepend:
  "list_all succeeded xs \<Longrightarrow> aborted (xs @ ys) (map outline xs @ P) = aborted ys P"
  by (induction xs) simp_all

lemma aborted_extend: "aborted evs P \<Longrightarrow> aborted evs (P @ Q)"
  by (induction evs arbitrary: P) (auto split: list.splits if_splits)

lemma follows_Inr [simp]: "follows evs (Inr u) P = completed evs P"
  by (simp add: follows_def)

lemma follows_Inl [simp]: "follows evs (Inl code) P = (code = - 1 \<and> aborted evs P)"
  by (simp add: follows_def)

lemma follows_then:
  "completed xs P \<Longrightarrow> follows ys res Q \<Longrightarrow> follows (xs @ ys) res (P @ Q)"
  by (cases res) (auto simp add: completed_def aborted_prepend)

lemma follows_extend: "follows evs (Inl code) P \<Longrightarrow> follows evs (Inl code) (P @ Q)"
  by (simp add: aborted_extend)

lemma aborted_decomp:
  "aborted evs P \<Longrightarrow>
   \<exists>pre bad. evs = pre @ bad # diagnostic bad @ [EExit (- 1)]
      \<and> list_all succeeded pre \<and> \<not> succeeded bad \<and> prefix (map outline (pre @ [bad])) P"
proof (induction evs arbitrary: P)
  case Nil
  then show ?case by simp
next
  case (Cons ev evs)
  from Cons.prems obtain ps where P: "P = outline ev # ps"
    by (cases P) auto
  show ?case
  proof (cases "succeeded ev")
    case True
    with Cons.prems P have "aborted evs ps" by simp
    from Cons.IH [OF this] obtain pre bad
      where d: "evs = pre @ bad # diagnostic bad @ [EExit (- 1)]"
        "list_all succeeded pre" "\<not> succeeded bad" "prefix (map outline (pre @ [bad])) ps"
      by blast
    show ?thesis
      by (intro exI [of _ "ev # pre"] exI [of _ bad]) (use d True P in simp)
  next
    case False
    with Cons.prems P have "evs = diagnostic ev @ [EExit (- 1)]" by simp
    then show ?thesis
      by (intro exI [of _ "[]"] exI [of _ ev]) (use False P in simp)
  qed
qed

lemma observed_outline:
  assumes "\<And>ev. succeeded ev \<Longrightarrow> obs (outline ev) = obs ev"
  shows "list_all succeeded xs \<Longrightarrow> concat (map obs (map outline xs)) = concat (map obs xs)"
  by (induction xs) (simp_all add: assms)

lemma follows_observed:
  assumes f: "follows evs res plan"
    and same: "\<And>ev. succeeded ev \<Longrightarrow> obs (outline ev) = obs ev"
    and less: "\<And>ev. prefix (obs ev) (obs (outline ev))"
    and diag: "\<And>ev. concat (map obs (diagnostic ev)) = []"
    and ex: "obs (EExit (- 1)) = []"
  shows "prefix (concat (map obs evs)) (concat (map obs plan))
     \<and> (\<forall>u. res = Inr u \<longrightarrow> concat (map obs evs) = concat (map obs plan))"
proof (cases res)
  case (Inr u)
  with f have "map outline evs = plan" and "list_all succeeded evs"
    by (simp_all add: completed_def)
  with observed_outline [of obs evs, OF same] have "concat (map obs evs) = concat (map obs plan)"
    by auto
  with Inr show ?thesis by simp
next
  case (Inl code)
  with f have "aborted evs plan" by simp
  from aborted_decomp [OF this] obtain pre bad
    where d: "evs = pre @ bad # diagnostic bad @ [EExit (- 1)]"
      "list_all succeeded pre" "\<not> succeeded bad" "prefix (map outline (pre @ [bad])) plan"
    by blast
  from d(4) obtain rest where plan: "plan = map outline pre @ outline bad # rest"
    by (auto simp add: prefix_def)
  have pre: "concat (map obs (map outline pre)) = concat (map obs pre)"
    using observed_outline [of obs pre, OF same] d(2) by auto
  have "concat (map obs evs) = concat (map obs pre) @ obs bad"
    unfolding d(1) by (simp add: diag ex)
  moreover have "concat (map obs plan) = concat (map obs pre) @ obs (outline bad) @ concat (map obs rest)"
    unfolding plan using pre by simp
  moreover from less [of bad] have "prefix (obs bad) (obs (outline bad) @ concat (map obs rest))"
    by (rule prefix_prefix)
  ultimately show ?thesis using Inl by simp
qed

section \<open>The sweeps follow their plans\<close>

lemma write_loop_follows:
  "follows (fst (write_loop env fd S count i v c)) (fst (snd (write_loop env fd S count i v c)))
     (concat (map (\<lambda>k. [EPwrite 0 (unat S) (int (unat (filePos v + word_of_nat k * S))) 0,
                         EFsync 0 0]) [0..<count - i]))"
proof (induction "count - i" arbitrary: i v c)
  case 0
  then show ?case by (simp add: write_loop_done completed_def)
next
  case (Suc n)
  from Suc.hyps(2) have lt: "i < count" and n: "n = count - Suc i" by simp_all
  show ?case
  proof (cases "pwrite_res env (n_pwrite c) = int (unat S)")
    case True
    let ?v = "\<lparr>filePos = filePos v + S,
           writeCycles = writeCycles v
             + (rdtsc_val env (n_rdtsc c + 1) - rdtsc_val env (n_rdtsc c)),
           fsyncCycles = fsyncCycles v
             + (rdtsc_val env (n_rdtsc c + 2) - rdtsc_val env (n_rdtsc c + 1))\<rparr>"
    let ?c = "c\<lparr>n_rdtsc := n_rdtsc c + 3, n_pwrite := Suc (n_pwrite c),
        n_fsync := Suc (n_fsync c)\<rparr>"
    obtain evs res c' where L: "write_loop env fd S count (Suc i) ?v ?c = (evs, res, c')"
      by (cases "write_loop env fd S count (Suc i) ?v ?c") auto
    from Suc.hyps(1) [OF n, of ?v ?c] L
    have f: "follows evs res
       (concat (map (\<lambda>k. [EPwrite 0 (unat S) (int (unat (filePos v + S + word_of_nat k * S))) 0,
                           EFsync 0 0]) [0..<n]))"
      by (simp add: n)
    have c0: "completed [EPwrite fd (unat S) (int (unat (filePos v))) (int (unat S)),
                         EFsync fd (fsync_res env (n_fsync c))]
                        [EPwrite 0 (unat S) (int (unat (filePos v))) 0, EFsync 0 0]"
      by (simp add: completed_def)
    have eq: "write_loop env fd S count i v c =
        ([EPwrite fd (unat S) (int (unat (filePos v))) (int (unat S)),
          EFsync fd (fsync_res env (n_fsync c))] @ evs, res, c')"
      by (simp only: write_loop_step [OF lt True] write_once_ok [OF True] prod.case sum.sel L)
    from follows_then [OF c0 f] show ?thesis
      unfolding eq Suc.hyps(2) [symmetric]
      by (simp add: upt_0_Suc comp_def algebra_simps del: upt_Suc)
  next
    case False
    show ?thesis
      unfolding write_loop_fail [OF lt False] write_once_fail [OF False] Suc.hyps(2) [symmetric]
      using False by (simp add: upt_0_Suc del: upt_Suc)
  qed
qed

lemma read_loop_follows:
  "follows (fst (read_loop env fd S inc count i rc c)) (fst (snd (read_loop env fd S inc count i rc c)))
     (map (\<lambda>k. EPread 0 (unat S) (read_filePos (i + k) inc) 0) [0..<count - i])"
proof (induction "count - i" arbitrary: i rc c)
  case 0
  then show ?case by (simp add: read_loop_done completed_def)
next
  case (Suc n)
  from Suc.hyps(2) have lt: "i < count" and n: "n = count - Suc i" by simp_all
  show ?case
  proof (cases "word_of_int (pread_res env (n_pread c)) = S")
    case True
    let ?rc = "rc + (rdtsc_val env (n_rdtsc c + 1) - rdtsc_val env (n_rdtsc c))"
    let ?c = "c\<lparr>n_rdtsc := n_rdtsc c + 2, n_pread := Suc (n_pread c)\<rparr>"
    obtain evs res c' where L: "read_loop env fd S inc count (Suc i) ?rc ?c = (evs, res, c')"
      by (cases "read_loop env fd S inc count (Suc i) ?rc ?c") auto
    from Suc.hyps(1) [OF n, of ?rc ?c] L
    have f: "follows evs res
       (map (\<lambda>k. EPread 0 (unat S) (read_filePos (Suc i + k) inc) 0) [0..<n])"
      by (simp add: n)
    have c0: "completed [EPread fd (unat S) (read_filePos i inc) (pread_res env (n_pread c))]
                        [EPread 0 (unat S) (read_filePos i inc) 0]"
      using True by (simp add: completed_def)
    have eq: "read_loop env fd S inc count i rc c =
        ([EPread fd (unat S) (read_filePos i inc) (pread_res env (n_pread c))] @ evs, res, c')"
      by (simp only: read_loop_step [OF lt True] read_once_ok [OF True] prod.case sum.sel L)
    from follows_then [OF c0 f] show ?thesis
      unfolding eq Suc.hyps(2) [symmetric]
      by (simp add: upt_0_Suc comp_def del: upt_Suc)
  next
    case False
    show ?thesis
      unfolding read_loop_fail [OF lt False] read_once_fail [OF False] Suc.hyps(2) [symmetric]
      using False by (simp add: upt_0_Suc del: upt_Suc)
  qed
qed

lemma claimed_total_value: "claimed_total = 805306368"
  by (simp add: claimed_total_def maxExp_def largeCount_def smallCount_def)

lemma counts_as_claimed:
  assumes "minExp \<le> e" and "e \<le> maxExp"
  shows "write_count (push_bit e 1) = claimed_count (2 ^ e)"
    and "read_count (push_bit e 1) = claimed_count (2 ^ e)"
proof -
  from assms have e: "e < 32" by (simp add: maxExp_def)
  have u: "unat (push_bit e 1 :: u32) = 2 ^ e" using e by (rule unat_push_bit_1)
  show w: "write_count (push_bit e 1) = claimed_count (2 ^ e)"
    using count_rule_on_sweep(1) [OF assms] unfolding u claimed_count_def .
  then show "read_count (push_bit e 1) = claimed_count (2 ^ e)"
    by (simp only: same_count)
qed

lemma claimed_count_small: "e < 20 \<Longrightarrow> claimed_count (2 ^ e) = 100"
proof -
  assume a: "e < 20"
  then have "(2::nat) ^ e \<le> 2 ^ 19" by (intro power_increasing) simp_all
  then have "(2::nat) ^ e < 1000000" by simp
  then have "real (2 ^ e) < 1000000" by (metis of_nat_less_iff of_nat_numeral)
  then show ?thesis
    by (simp add: claimed_count_def smallBigThreshold_def smallCount_def)
qed

lemma claimed_count_large: "20 \<le> e \<Longrightarrow> claimed_count (2 ^ e) = 3"
proof -
  assume a: "20 \<le> e"
  then have "(2::nat) ^ 20 \<le> 2 ^ e" by (intro power_increasing) simp_all
  then have "(1000000::nat) \<le> 2 ^ e" by simp
  then have "(1000000::real) \<le> real (2 ^ e)" by (metis of_nat_le_iff of_nat_numeral)
  then show ?thesis
    by (simp add: claimed_count_def smallBigThreshold_def largeCount_def)
qed

lemma read_offset_exact:
  assumes "minExp \<le> e" and "e \<le> maxExp" and "i < claimed_count (2 ^ e)"
  shows "read_filePos i (filePosIncrement (read_count (push_bit e 1)))
           = (int i * (claimed_total div int (claimed_count (2 ^ e)))) AND NOT (2 ^ 9 - 1)
       \<and> 512 dvd ((int i * (claimed_total div int (claimed_count (2 ^ e)))) AND NOT (2 ^ 9 - 1))
       \<and> 0 \<le> (int i * (claimed_total div int (claimed_count (2 ^ e)))) AND NOT (2 ^ 9 - 1)
       \<and> (int i * (claimed_total div int (claimed_count (2 ^ e)))) AND NOT (2 ^ 9 - 1)
           \<le> claimed_total - 2 ^ e
       \<and> 0 \<le> int i * (claimed_total div int (claimed_count (2 ^ e)))
       \<and> int i * (claimed_total div int (claimed_count (2 ^ e)))
           \<le> (int (claimed_count (2 ^ e)) - 1) * (claimed_total div int (claimed_count (2 ^ e)))
       \<and> (int (claimed_count (2 ^ e)) - 1) * (claimed_total div int (claimed_count (2 ^ e)))
           < 2 ^ 31"
proof (cases "e < 20")
  case True
  then have c: "claimed_count (2 ^ e) = 100" by (rule claimed_count_small)
  have rc: "read_count (push_bit e 1) = 100"
    using counts_as_claimed(2) [OF assms(1,2)] c by (simp only:)
  from assms c have i: "i < 100" by simp
  then have b: "int i * 8053063 \<le> 797253237" by simp
  have p: "read_filePos i (word_of_int 8053063) = int i * 8053063 - (int i * 8053063) mod 512"
    by (rule read_filePos_exact) (use b in simp_all)
  from True have "(2::int) ^ e \<le> 2 ^ 19" by (intro power_increasing) simp_all
  then have s: "(2::int) ^ e \<le> 524288" by simp
  have nn: "0 \<le> (int i * 8053063) div 512" by (simp add: pos_imp_zdiv_nonneg_iff)
  have m: "(2 ^ 9 - 1 :: int) = 512 - 1" by simp
  show ?thesis
    unfolding c rc filePosIncrement_def read_maxSize_value claimed_total_value m int_clear_low
    using p b s nn by (simp add: minus_mod_eq_mult_div)
next
  case False
  then have c: "claimed_count (2 ^ e) = 3" by (intro claimed_count_large) simp
  have rc: "read_count (push_bit e 1) = 3"
    using counts_as_claimed(2) [OF assms(1,2)] c by (simp only:)
  from assms c have i: "i < 3" by simp
  then have b: "int i * 268435456 \<le> 536870912" by simp
  have p: "read_filePos i (word_of_int 268435456) = int i * 268435456 - (int i * 268435456) mod 512"
    by (rule read_filePos_exact) (use b in simp_all)
  from assms have "(2::int) ^ e \<le> 2 ^ 28" by (intro power_increasing) (simp_all add: maxExp_def)
  then have s: "(2::int) ^ e \<le> 268435456" by simp
  have nn: "0 \<le> (int i * 268435456) div 512" by (simp add: pos_imp_zdiv_nonneg_iff)
  have m: "(2 ^ 9 - 1 :: int) = 512 - 1" by simp
  show ?thesis
    unfolding c rc filePosIncrement_def read_maxSize_value claimed_total_value m int_clear_low
    using p b s nn by (simp add: minus_mod_eq_mult_div)
qed

lemma write_loop_plan:
  assumes "minExp \<le> e" and "e \<le> maxExp"
  shows "concat (map (\<lambda>k. [EPwrite 0 (unat (push_bit e 1 :: u32))
                            (int (unat (filePos \<lparr>filePos = 0, writeCycles = 0, fsyncCycles = 0\<rparr>
                               + word_of_nat k * (push_bit e 1 :: u32)))) 0,
                          EFsync 0 0]) [0..<write_count (push_bit e 1) - 0])
       = concat (map (\<lambda>k. [EPwrite 0 (2 ^ e) (int k * 2 ^ e) 0, EFsync 0 0])
                   [0..<claimed_count (2 ^ e)])"
proof -
  from assms have e: "e < 32" by (simp add: maxExp_def)
  have u: "unat (push_bit e 1 :: u32) = 2 ^ e" using e by (rule unat_push_bit_1)
  note c = counts_as_claimed(1) [OF assms]
  have "map (\<lambda>k. [EPwrite 0 (unat (push_bit e 1 :: u32))
                            (int (unat (filePos \<lparr>filePos = 0, writeCycles = 0, fsyncCycles = 0\<rparr>
                               + word_of_nat k * (push_bit e 1 :: u32)))) 0,
                          EFsync 0 0]) [0..<write_count (push_bit e 1) - 0]
      = map (\<lambda>k. [EPwrite 0 (2 ^ e) (int k * 2 ^ e) 0, EFsync 0 0])
                   [0..<claimed_count (2 ^ e)]"
  proof (rule map_cong)
    show "[0..<write_count (push_bit e 1) - 0] = [0..<claimed_count (2 ^ e)]"
      by (simp only: c diff_zero)
  next
    fix k assume "k \<in> set [0..<claimed_count (2 ^ e)]"
    then have "k \<le> write_count (push_bit e 1)" by (simp add: c del: push_bit_of_1)
    from write_filePos_exact [OF assms this]
    have "int (unat (word_of_nat k * (push_bit e 1 :: u32))) = int k * 2 ^ e"
      by (simp only: of_nat_mult of_nat_power of_nat_numeral)
    then show "[EPwrite 0 (unat (push_bit e 1 :: u32))
                            (int (unat (filePos \<lparr>filePos = 0, writeCycles = 0, fsyncCycles = 0\<rparr>
                               + word_of_nat k * (push_bit e 1 :: u32)))) 0,
                          EFsync 0 0] = [EPwrite 0 (2 ^ e) (int k * 2 ^ e) 0, EFsync 0 0]"
      by (simp add: u del: push_bit_of_1)
  qed
  then show ?thesis by (simp only:)
qed

lemma write_size_follows:
  assumes "minExp \<le> e" and "e \<le> maxExp"
  shows "follows (fst (write_size env filename ops e c)) (fst (snd (write_size env filename ops e c)))
     (plan_write_size filename ops e)"
proof (cases "open_res env (n_open c) = - 1")
  case True
  show ?thesis
    unfolding write_size_open_failed [OF True] plan_write_size_def by simp
next
  case False
  let ?S = "push_bit e 1 :: u32"
  let ?v = "\<lparr>filePos = 0, writeCycles = 0, fsyncCycles = 0\<rparr>"
  let ?L = "write_loop env (open_res env (n_open c)) ?S (write_count ?S) 0 ?v
              (c\<lparr>n_open := Suc (n_open c)\<rparr>)"
  let ?op = "EOpen filename ({O_WRONLY, O_CREAT} \<union> ops) (open_res env (n_open c))"
  let ?plan = "concat (map (\<lambda>k. [EPwrite 0 (2 ^ e) (int k * 2 ^ e) 0, EFsync 0 0])
                   [0..<claimed_count (2 ^ e)])"
  obtain evs res c2 where L: "?L = (evs, res, c2)" by (cases ?L) auto
  from write_loop_follows [of env "open_res env (n_open c)" ?S "write_count ?S" 0 ?v
      "c\<lparr>n_open := Suc (n_open c)\<rparr>"] L
  have f: "follows evs res ?plan"
    unfolding write_loop_plan [OF assms] by simp
  have c0: "completed [?op] [EOpen filename ({O_WRONLY, O_CREAT} \<union> ops) 0]"
    using False by (simp add: completed_def)
  show ?thesis
  proof (cases res)
    case (Inl code)
    from follows_then [OF c0 follows_extend [OF f [unfolded Inl]]] L Inl show ?thesis
      unfolding write_size_opened [OF False] plan_write_size_def
      by (simp del: push_bit_of_1)
  next
    case (Inr v)
    from f Inr have c1: "completed evs ?plan" by simp
    have c2: "completed [EClose (open_res env (n_open c)) (close_res env (n_close c2)),
                ERemove filename (remove_res env (n_remove c2)),
                EPrintf (write_row ?S (write_count ?S) v)]
               [EClose 0 0, ERemove filename 0, EPrintf (WriteRow (2 ^ e) (Lit 0) (Lit 0) (Lit 0))]"
      by (simp add: completed_def write_row_def Let_def)
    from completed_append [OF c0 completed_append [OF c1 c2]] L Inr show ?thesis
      unfolding write_size_opened [OF False] plan_write_size_def
      by (simp del: push_bit_of_1)
  qed
qed

lemma read_loop_plan:
  assumes "minExp \<le> e" and "e \<le> maxExp"
  shows "map (\<lambda>k. EPread 0 (unat (push_bit e 1 :: u32))
                    (read_filePos (0 + k) (filePosIncrement (read_count (push_bit e 1)))) 0)
             [0..<read_count (push_bit e 1) - 0]
       = map (\<lambda>i. EPread 0 (2 ^ e)
                ((int i * (claimed_total div int (claimed_count (2 ^ e)))) AND NOT (2 ^ 9 - 1)) 0)
             [0..<claimed_count (2 ^ e)]"
proof (rule map_cong)
  show "[0..<read_count (push_bit e 1) - 0] = [0..<claimed_count (2 ^ e)]"
    by (simp only: counts_as_claimed(2) [OF assms] diff_zero)
next
  from assms have e: "e < 32" by (simp add: maxExp_def)
  have u: "unat (push_bit e 1 :: u32) = 2 ^ e" using e by (rule unat_push_bit_1)
  fix k assume "k \<in> set [0..<claimed_count (2 ^ e)]"
  then have "k < claimed_count (2 ^ e)" by simp
  from read_offset_exact [OF assms this]
  have "read_filePos k (filePosIncrement (read_count (push_bit e 1)))
           = (int k * (claimed_total div int (claimed_count (2 ^ e)))) AND NOT (2 ^ 9 - 1)"
    by blast
  then show "EPread 0 (unat (push_bit e 1 :: u32))
                    (read_filePos (0 + k) (filePosIncrement (read_count (push_bit e 1)))) 0
       = EPread 0 (2 ^ e)
                ((int k * (claimed_total div int (claimed_count (2 ^ e)))) AND NOT (2 ^ 9 - 1)) 0"
    by (simp add: u del: push_bit_of_1)
qed

lemma read_size_follows:
  assumes "minExp \<le> e" and "e \<le> maxExp"
  shows "follows (fst (read_size env fd e c)) (fst (snd (read_size env fd e c)))
     (plan_read_size e)"
proof -
  let ?S = "push_bit e 1 :: u32"
  let ?L = "read_loop env fd ?S (filePosIncrement (read_count ?S)) (read_count ?S) 0 0 c"
  let ?plan = "map (\<lambda>i. EPread 0 (2 ^ e)
                ((int i * (claimed_total div int (claimed_count (2 ^ e)))) AND NOT (2 ^ 9 - 1)) 0)
             [0..<claimed_count (2 ^ e)]"
  obtain evs res c1 where L: "?L = (evs, res, c1)" by (cases ?L) auto
  from read_loop_follows [of env fd ?S "filePosIncrement (read_count ?S)" "read_count ?S" 0 0 c] L
  have f: "follows evs res ?plan"
    unfolding read_loop_plan [OF assms] by simp
  show ?thesis
  proof (cases res)
    case (Inl code)
    from follows_extend [OF f [unfolded Inl]] L Inl show ?thesis
      unfolding read_size_def plan_read_size_def Let_def
      by (simp del: push_bit_of_1)
  next
    case (Inr rc)
    from f Inr have c1: "completed evs ?plan" by simp
    have c2: "completed [EPrintf (read_row ?S (read_count ?S) rc)]
               [EPrintf (ReadRow (2 ^ e) (Lit 0) (Lit 0))]"
      by (simp add: completed_def read_row_def)
    from completed_append [OF c1 c2] L Inr show ?thesis
      unfolding read_size_def plan_read_size_def Let_def
      by (simp del: push_bit_of_1)
  qed
qed

lemma write_sizes_follows:
  "minExp \<le> e \<Longrightarrow>
   follows (fst (write_sizes env filename ops e c)) (fst (snd (write_sizes env filename ops e c)))
     (concat (map (plan_write_size filename ops) [e..<Suc maxExp]))"
proof (induction "Suc maxExp - e" arbitrary: e c)
  case 0
  then have "\<not> e \<le> maxExp" by simp
  then show ?case by (simp add: write_sizes.simps [of env filename ops e c] completed_def)
next
  case (Suc n)
  from Suc.hyps(2) have le: "e \<le> maxExp" and n: "n = Suc maxExp - Suc e" by simp_all
  from le have up: "[e..<Suc maxExp] = e # [Suc e..<Suc maxExp]"
    by (simp add: upt_conv_Cons del: upt_Suc)
  obtain evs res c' where ws: "write_size env filename ops e c = (evs, res, c')"
    by (cases "write_size env filename ops e c") auto
  from write_size_follows [OF Suc.prems le, of env filename ops c] ws
  have f: "follows evs res (plan_write_size filename ops e)" by simp
  show ?case
  proof (cases res)
    case (Inl code)
    from follows_extend [OF f [unfolded Inl]] ws Inl le show ?thesis
      unfolding up by (simp add: write_sizes.simps [of env filename ops e c])
  next
    case (Inr u)
    from Suc.prems have "minExp \<le> Suc e" by simp
    note ih = Suc.hyps(1) [OF n this, of c']
    obtain evs' res' c'' where r: "write_sizes env filename ops (Suc e) c' = (evs', res', c'')"
      by (cases "write_sizes env filename ops (Suc e) c'") auto
    from f Inr have c1: "completed evs (plan_write_size filename ops e)" by simp
    from ih r have "follows evs' res' (concat (map (plan_write_size filename ops) [Suc e..<Suc maxExp]))"
      by simp
    from follows_then [OF c1 this] ws Inr r le show ?thesis
      unfolding up by (simp add: write_sizes.simps [of env filename ops e c])
  qed
qed

lemma read_sizes_follows:
  "minExp \<le> e \<Longrightarrow>
   follows (fst (read_sizes env fd e c)) (fst (snd (read_sizes env fd e c)))
     (concat (map plan_read_size [e..<Suc maxExp]))"
proof (induction "Suc maxExp - e" arbitrary: e c)
  case 0
  then have "\<not> e \<le> maxExp" by simp
  then show ?case by (simp add: read_sizes.simps [of env fd e c] completed_def)
next
  case (Suc n)
  from Suc.hyps(2) have le: "e \<le> maxExp" and n: "n = Suc maxExp - Suc e" by simp_all
  from le have up: "[e..<Suc maxExp] = e # [Suc e..<Suc maxExp]"
    by (simp add: upt_conv_Cons del: upt_Suc)
  obtain evs res c' where rs: "read_size env fd e c = (evs, res, c')"
    by (cases "read_size env fd e c") auto
  from read_size_follows [OF Suc.prems le, of env fd c] rs
  have f: "follows evs res (plan_read_size e)" by simp
  show ?case
  proof (cases res)
    case (Inl code)
    from follows_extend [OF f [unfolded Inl]] rs Inl le show ?thesis
      unfolding up by (simp add: read_sizes.simps [of env fd e c])
  next
    case (Inr u)
    from Suc.prems have "minExp \<le> Suc e" by simp
    note ih = Suc.hyps(1) [OF n this, of c']
    obtain evs' res' c'' where r: "read_sizes env fd (Suc e) c' = (evs', res', c'')"
      by (cases "read_sizes env fd (Suc e) c'") auto
    from f Inr have c1: "completed evs (plan_read_size e)" by simp
    from ih r have "follows evs' res' (concat (map plan_read_size [Suc e..<Suc maxExp]))"
      by simp
    from follows_then [OF c1 this] rs Inr r le show ?thesis
      unfolding up by (simp add: read_sizes.simps [of env fd e c])
  qed
qed

lemma write_intro_completed: "completed (write_intro filename cm) (write_intro filename cm)"
  by (cases cm) (simp_all add: write_intro_def completed_def)

lemma read_intro_completed: "completed (read_intro filename cm) (read_intro filename cm)"
  by (cases cm) (simp_all add: read_intro_def completed_def)

lemma benchmark_write_follows:
  "follows (fst (benchmark_write env filename cm ops c))
     (fst (snd (benchmark_write env filename cm ops c))) (plan_write filename cm ops)"
proof -
  let ?c1 = "c\<lparr>n_memalign := Suc (n_memalign c)\<rparr>"
  let ?al = "EMemalign 512 (nat maxSize) (memalign_res env (n_memalign c))"
  have m: "nat maxSize = 2 ^ maxExp" by (simp add: maxSize_def maxExp_def)
  note i = write_intro_completed [of filename cm]
  show ?thesis
  proof (cases "memalign_res env (n_memalign c) = 0")
    case False
    then have a: "follows [?al, EPerror ''Memalign failed'', EExit (- 1)] (Inl (- 1))
        ([EMemalign 512 (2 ^ maxExp) 0]
         @ concat (map (plan_write_size filename ops) [minExp..<Suc maxExp])
         @ [EPrintf BlankLine, EFree])"
      by (simp add: m)
    from follows_then [OF i a] False show ?thesis
      by (simp add: benchmark_write_def posix_memalign_def plan_write_def)
  next
    case True
    obtain evs res c2 where r: "write_sizes env filename ops minExp ?c1 = (evs, res, c2)"
      by (cases "write_sizes env filename ops minExp ?c1") auto
    from write_sizes_follows [OF order_refl, of env filename ops ?c1] r
    have f: "follows evs res (concat (map (plan_write_size filename ops) [minExp..<Suc maxExp]))"
      by simp
    have c0: "completed [?al] [EMemalign 512 (2 ^ maxExp) 0]"
      using True by (simp add: completed_def m)
    show ?thesis
    proof (cases res)
      case (Inl code)
      from follows_then [OF i follows_then [OF c0 follows_extend [OF f [unfolded Inl]]]]
        True r Inl show ?thesis
        by (simp add: benchmark_write_def posix_memalign_def plan_write_def)
    next
      case (Inr u)
      from f Inr have c1: "completed evs
          (concat (map (plan_write_size filename ops) [minExp..<Suc maxExp]))" by simp
      have c2: "completed [EPrintf BlankLine, EFree] [EPrintf BlankLine, EFree]"
        by (simp add: completed_def)
      from completed_append [OF i completed_append [OF c0 completed_append [OF c1 c2]]]
        True r Inr show ?thesis
        by (simp add: benchmark_write_def posix_memalign_def plan_write_def)
    qed
  qed
qed

lemma benchmark_read_follows:
  "follows (fst (benchmark_read env filename cm ops c))
     (fst (snd (benchmark_read env filename cm ops c))) (plan_read filename cm ops)"
proof -
  let ?c1 = "c\<lparr>n_memalign := Suc (n_memalign c)\<rparr>"
  let ?c2 = "?c1\<lparr>n_open := Suc (n_open ?c1)\<rparr>"
  let ?c3 = "?c2\<lparr>n_write := Suc (n_write ?c2)\<rparr>"
  let ?c4 = "?c3\<lparr>n_fsync := Suc (n_fsync ?c3)\<rparr>"
  let ?fd = "open_res env (n_open c)"
  let ?al = "EMemalign 512 (nat read_maxSize) (memalign_res env (n_memalign c))"
  let ?op = "EOpen filename ({O_RDWR, O_CREAT} \<union> ops) ?fd"
  let ?wr = "EWrite ?fd (nat read_maxSize) (write_res env (n_write c))"
  let ?sy = "EFsync ?fd (fsync_res env (n_fsync c))"
  let ?sizes = "concat (map plan_read_size [minExp..<Suc maxExp])"
  let ?tail = "[EClose 0 0, ERemove filename 0, EPrintf BlankLine, EFree]"
  have m: "read_maxSize = claimed_total"
    by (simp add: read_maxSize_value claimed_total_value)
  note i = read_intro_completed [of filename cm]
  show ?thesis
  proof (cases "memalign_res env (n_memalign c) = 0")
    case False
    then have a: "follows [?al, EPerror ''Memalign failed'', EExit (- 1)] (Inl (- 1))
        ([EMemalign 512 (nat claimed_total) 0, EOpen filename ({O_RDWR, O_CREAT} \<union> ops) 0,
          EWrite 0 (nat claimed_total) 0, EFsync 0 0] @ ?sizes @ ?tail)"
      by (simp add: m)
    from follows_then [OF i a] False show ?thesis
      by (simp add: benchmark_read_def posix_memalign_def plan_read_def)
  next
    case al: True
    show ?thesis
    proof (cases "?fd = - 1")
      case True
      with al have a: "follows [?al, ?op, EPerror ''Opening file failed'', EExit (- 1)] (Inl (- 1))
          ([EMemalign 512 (nat claimed_total) 0, EOpen filename ({O_RDWR, O_CREAT} \<union> ops) 0,
            EWrite 0 (nat claimed_total) 0, EFsync 0 0] @ ?sizes @ ?tail)"
        by (simp add: m)
      from follows_then [OF i a] al True show ?thesis
        by (simp add: benchmark_read_def posix_memalign_def sys_open_def plan_read_def)
    next
      case op: False
      show ?thesis
      proof (cases "write_res env (n_write c) = read_maxSize")
        case False
        with al op have a: "follows [?al, ?op, ?wr, EPerror ''Initial Write'', EExit (- 1)] (Inl (- 1))
            ([EMemalign 512 (nat claimed_total) 0, EOpen filename ({O_RDWR, O_CREAT} \<union> ops) 0,
              EWrite 0 (nat claimed_total) 0, EFsync 0 0] @ ?sizes @ ?tail)"
          by (simp add: m claimed_total_value)
        from follows_then [OF i a] al op False show ?thesis
          by (auto simp add: benchmark_read_def posix_memalign_def sys_open_def sys_write_def
              plan_read_def)
      next
        case wr: True
        obtain evs res c5 where r: "read_sizes env ?fd minExp ?c4 = (evs, res, c5)"
          by (cases "read_sizes env ?fd minExp ?c4") auto
        from read_sizes_follows [OF order_refl, of env ?fd ?c4] r
        have f: "follows evs res ?sizes" by simp
        from al op wr have c0: "completed [?al, ?op, ?wr, ?sy]
            [EMemalign 512 (nat claimed_total) 0, EOpen filename ({O_RDWR, O_CREAT} \<union> ops) 0,
             EWrite 0 (nat claimed_total) 0, EFsync 0 0]"
          by (simp add: completed_def m claimed_total_value)
        show ?thesis
        proof (cases res)
          case (Inl code)
          from follows_then [OF i follows_then [OF c0 follows_extend [OF f [unfolded Inl]]]]
            al op wr r Inl show ?thesis
            by (simp add: benchmark_read_def posix_memalign_def sys_open_def sys_write_def
                fsync_def plan_read_def)
        next
          case (Inr u)
          from f Inr have c1: "completed evs ?sizes" by simp
          have c2: "completed [EClose ?fd (close_res env (n_close c5)),
                      ERemove filename (remove_res env (n_remove c5)), EPrintf BlankLine, EFree]
                     ?tail"
            by (simp add: completed_def)
          from completed_append [OF i completed_append [OF c0 completed_append [OF c1 c2]]]
            al op wr r Inr show ?thesis
            by (simp add: benchmark_read_def posix_memalign_def sys_open_def sys_write_def
                fsync_def sys_close_def std_remove_def plan_read_def)
        qed
      qed
    qed
  qed
qed

lemma main_follows:
  assumes "\<not> 3 \<le> length argv"
  shows "follows (fst (main env argv)) (snd (main env argv))
     (plan_write (if length argv = 2 then argv ! 1 else ''/tmp/benchmark.tmp'')
        (Some ''With O_DIRECT|O_SYNC'') {O_DIRECT, O_SYNC}
      @ plan_read (if length argv = 2 then argv ! 1 else ''/tmp/benchmark.tmp'')
        (Some ''With O_DIRECT|O_SYNC'') {O_DIRECT, O_SYNC})"
proof -
  let ?f = "if length argv = 2 then argv ! 1 else ''/tmp/benchmark.tmp''"
  let ?cm = "Some ''With O_DIRECT|O_SYNC''"
  obtain evs res c1 where W: "benchmark_write env ?f ?cm {O_DIRECT, O_SYNC} no_calls
      = (evs, res, c1)"
    by (cases "benchmark_write env ?f ?cm {O_DIRECT, O_SYNC} no_calls") auto
  obtain evs' res' c2 where R: "benchmark_read env ?f ?cm {O_DIRECT, O_SYNC} c1
      = (evs', res', c2)"
    by (cases "benchmark_read env ?f ?cm {O_DIRECT, O_SYNC} c1") auto
  from benchmark_write_follows [of env ?f ?cm "{O_DIRECT, O_SYNC}" no_calls] W
  have w: "follows evs res (plan_write ?f ?cm {O_DIRECT, O_SYNC})" by simp
  from benchmark_read_follows [of env ?f ?cm "{O_DIRECT, O_SYNC}" c1] R
  have r: "follows evs' res' (plan_read ?f ?cm {O_DIRECT, O_SYNC})" by simp
  show ?thesis
  proof (cases res)
    case (Inl code)
    from follows_extend [OF w [unfolded Inl]] W Inl show ?thesis
      unfolding main_run [OF assms] by simp
  next
    case (Inr u)
    from w Inr have c: "completed evs (plan_write ?f ?cm {O_DIRECT, O_SYNC})" by simp
    from follows_then [OF c r] W R Inr show ?thesis
      unfolding main_run [OF assms] by (cases res') simp_all
  qed
qed

section \<open>What a run that follows a plan lets one see\<close>

lemma observed_concat:
  "(\<And>x. concat (map obs (F x)) = G x) \<Longrightarrow>
   concat (map obs (concat (map F xs))) = concat (map G xs)"
  by (induction xs) simp_all

lemma prefix_of_map_upt:
  assumes "prefix xs (map f [0..<m])"
  shows "xs = map f [0..<length xs] \<and> length xs \<le> m"
proof -
  from assms obtain zs where z: "map f [0..<m] = xs @ zs" by (auto simp add: prefix_def)
  then have "length xs + length zs = m" by (metis length_append length_map length_upt diff_zero)
  then have le: "length xs \<le> m" by simp
  from z have "xs = take (length xs) (map f [0..<m])" by simp
  also have "\<dots> = map f [0..<length xs]" using le by (simp add: take_map min_def)
  finally show ?thesis using le by simp
qed

section \<open>Offsets of the write sweep\<close>

lemma follows_pwrite_ranges:
  assumes "follows evs res plan"
  shows "prefix (pwrite_ranges evs) (pwrite_ranges plan)
     \<and> (\<forall>u. res = Inr u \<longrightarrow> pwrite_ranges evs = pwrite_ranges plan)"
  unfolding pwrite_ranges_def
proof (rule follows_observed [OF assms])
  fix ev
  show "pwrite_range (outline ev) = pwrite_range ev" by (cases ev) simp_all
  then show "prefix (pwrite_range ev) (pwrite_range (outline ev))" by simp
  show "concat (map pwrite_range (diagnostic ev)) = []" by (cases ev) simp_all
qed simp

lemma write_intro_pwrite_ranges [simp]: "pwrite_ranges (write_intro filename cm) = []"
  by (cases cm) (simp_all add: write_intro_def)

lemma plan_write_size_ranges:
  "pwrite_ranges (plan_write_size filename ops e)
     = map (\<lambda>k. (int k * 2 ^ e, 2 ^ e)) [0..<claimed_count (2 ^ e)]"
  by (simp add: plan_write_size_def pwrite_ranges_concat)

lemma plan_write_ranges:
  "pwrite_ranges (plan_write filename cm ops)
     = concat (map (\<lambda>e. map (\<lambda>k. (int k * 2 ^ e, 2 ^ e)) [0..<claimed_count (2 ^ e)])
                 [minExp..<Suc maxExp])"
proof -
  have "pwrite_ranges (concat (map (plan_write_size filename ops) [minExp..<Suc maxExp]))
      = concat (map (\<lambda>e. map (\<lambda>k. (int k * 2 ^ e, 2 ^ e)) [0..<claimed_count (2 ^ e)])
                 [minExp..<Suc maxExp])"
    unfolding pwrite_ranges_def
    by (rule observed_concat) (simp add: plan_write_size_ranges [unfolded pwrite_ranges_def])
  then show ?thesis by (simp add: plan_write_def)
qed

text \<open>
  Claim C4. The ranges written by the \<open>pwrite\<close> calls of the write sweep, in order, are
  the planned ones or, when the sweep aborts, a beginning of them: for each size
  \<open>S = 2 ^ e\<close> from \<open>2 ^ minExp\<close> to \<open>2 ^ maxExp\<close>, the offsets \<open>0, S, 2 * S, ...\<close>, the
  k-th write at \<open>k * S\<close>, as many as the repetition count. So the offset starts at 0 for
  every size. Within one size a write ends where or before every later one begins. In
  the loop, a write that succeeds leaves \<open>filePos\<close> advanced by exactly the write size.
\<close>

theorem write_offsets_advance:
  "(let ranges = pwrite_ranges (fst (benchmark_write env filename cm ops c));
        planned = concat (map (\<lambda>e. map (\<lambda>k. (int k * 2 ^ e, 2 ^ e)) [0..<claimed_count (2 ^ e)])
                            [minExp..<Suc maxExp])
    in prefix ranges planned
       \<and> (fst (snd (benchmark_write env filename cm ops c)) = Inr () \<longrightarrow> ranges = planned))
   \<and> (minExp \<le> e \<and> e \<le> maxExp \<longrightarrow>
        (let ranges = pwrite_ranges (fst (write_size env filename ops e c))
         in ranges = map (\<lambda>k. (int k * 2 ^ e, 2 ^ e)) [0..<length ranges]
            \<and> length ranges \<le> claimed_count (2 ^ e)
            \<and> (fst (snd (write_size env filename ops e c)) = Inr () \<longrightarrow>
                 length ranges = claimed_count (2 ^ e))
            \<and> (\<forall>j k. j < k \<and> k < length ranges
                   \<longrightarrow> fst (ranges ! j) + int (snd (ranges ! j)) \<le> fst (ranges ! k))))
   \<and> (\<forall>evs v' c'. write_once env fd S v c = (evs, Inr v', c')
         \<longrightarrow> filePos v' = filePos v + S)"
proof (intro conjI impI)
  from follows_pwrite_ranges [OF benchmark_write_follows [of env filename cm ops c]]
  show "let ranges = pwrite_ranges (fst (benchmark_write env filename cm ops c));
        planned = concat (map (\<lambda>e. map (\<lambda>k. (int k * 2 ^ e, 2 ^ e)) [0..<claimed_count (2 ^ e)])
                            [minExp..<Suc maxExp])
    in prefix ranges planned
       \<and> (fst (snd (benchmark_write env filename cm ops c)) = Inr () \<longrightarrow> ranges = planned)"
    unfolding plan_write_ranges Let_def by blast
next
  assume e: "minExp \<le> e \<and> e \<le> maxExp"
  then have e1: "minExp \<le> e" and e2: "e \<le> maxExp" by simp_all
  let ?r = "pwrite_ranges (fst (write_size env filename ops e c))"
  from follows_pwrite_ranges [OF write_size_follows [OF e1 e2, of env filename ops c]]
  have p: "prefix ?r (map (\<lambda>k. (int k * 2 ^ e, 2 ^ e)) [0..<claimed_count (2 ^ e)])"
    and q: "fst (snd (write_size env filename ops e c)) = Inr ()
       \<longrightarrow> ?r = map (\<lambda>k. (int k * 2 ^ e, 2 ^ e)) [0..<claimed_count (2 ^ e)]"
    unfolding plan_write_size_ranges by blast+
  from prefix_of_map_upt [OF p]
  have r: "?r = map (\<lambda>k. (int k * 2 ^ e, 2 ^ e)) [0..<length ?r]"
    and n: "length ?r \<le> claimed_count (2 ^ e)" by blast+
  have l: "fst (snd (write_size env filename ops e c)) = Inr ()
       \<longrightarrow> length ?r = claimed_count (2 ^ e)"
  proof
    assume "fst (snd (write_size env filename ops e c)) = Inr ()"
    with q have "?r = map (\<lambda>k. (int k * 2 ^ e, 2 ^ e)) [0..<claimed_count (2 ^ e)]" by blast
    then have "length ?r = length (map (\<lambda>k. (int k * (2::int) ^ e, (2::nat) ^ e))
        [0..<claimed_count (2 ^ e)])" by (simp only:)
    then show "length ?r = claimed_count (2 ^ e)" by simp
  qed
  have d: "fst (?r ! j) + int (snd (?r ! j)) \<le> fst (?r ! k)"
    if "j < k \<and> k < length ?r" for j k
  proof -
    from that have jk: "j < k" and k: "k < length ?r" by simp_all
    then have j: "j < length ?r" by simp
    from jk have "Suc j \<le> k" by simp
    then have "Suc j * 2 ^ e \<le> k * 2 ^ e" by (rule mult_le_mono1)
    then have "int (Suc j * 2 ^ e) \<le> int (k * 2 ^ e)" by (simp only: of_nat_le_iff)
    then have le: "int j * 2 ^ e + int (2 ^ e) \<le> int k * 2 ^ e" by (simp add: algebra_simps)
    have "?r ! j = (int j * 2 ^ e, 2 ^ e)" by (subst r) (use j in simp)
    moreover have "?r ! k = (int k * 2 ^ e, 2 ^ e)" by (subst r) (use k in simp)
    ultimately show ?thesis using le by simp
  qed
  from r n l d
  show "let ranges = pwrite_ranges (fst (write_size env filename ops e c))
         in ranges = map (\<lambda>k. (int k * 2 ^ e, 2 ^ e)) [0..<length ranges]
            \<and> length ranges \<le> claimed_count (2 ^ e)
            \<and> (fst (snd (write_size env filename ops e c)) = Inr () \<longrightarrow>
                 length ranges = claimed_count (2 ^ e))
            \<and> (\<forall>j k. j < k \<and> k < length ranges
                   \<longrightarrow> fst (ranges ! j) + int (snd (ranges ! j)) \<le> fst (ranges ! k))"
    unfolding Let_def by blast
next
  show "\<forall>evs v' c'. write_once env fd S v c = (evs, Inr v', c')
         \<longrightarrow> filePos v' = filePos v + S"
    using write_once_advances [of env fd S v c] by blast
qed

theorem write_offsets_advance_witness:
  "fst (snd (benchmark_write obliging ''/tmp/benchmark.tmp'' None {} no_calls)) = Inr ()
   \<and> pwrite_ranges (fst (benchmark_write obliging ''/tmp/benchmark.tmp'' None {} no_calls))
       = concat (map (\<lambda>e. map (\<lambda>k. (int k * 2 ^ e, 2 ^ e)) [0..<claimed_count (2 ^ e)])
                   [minExp..<Suc maxExp])
   \<and> minExp \<le> 20 \<and> 20 \<le> maxExp
   \<and> fst (snd (write_size (steady 1048576) ''/tmp/benchmark.tmp'' {} 20 no_calls)) = Inr ()
   \<and> pwrite_ranges (fst (write_size (steady 1048576) ''/tmp/benchmark.tmp'' {} 20 no_calls))
       = [(0, 1048576), (1048576, 1048576), (2097152, 1048576)]
   \<and> claimed_count (2 ^ 20) = 3
   \<and> write_once (steady 1048576) 3 1048576
        \<lparr>filePos = 2097152, writeCycles = 0, fsyncCycles = 0\<rparr> no_calls
       = ([EPwrite 3 1048576 2097152 1048576, EFsync 3 0],
          Inr \<lparr>filePos = 3145728, writeCycles = 1, fsyncCycles = 1\<rparr>,
          \<lparr>n_rdtsc = 3, n_memalign = 0, n_open = 0, n_pwrite = 1, n_write = 0, n_pread = 0,
             n_fsync = 1, n_close = 0, n_remove = 0\<rparr>)"
proof -
  have fin: "fst (snd (benchmark_write obliging ''/tmp/benchmark.tmp'' None {} no_calls)) = Inr ()"
    using benchmark_write_completes [of obliging no_calls "''/tmp/benchmark.tmp''" None "{}"]
    by (simp add: no_calls_def)
  have a: "pwrite_ranges (fst (benchmark_write obliging ''/tmp/benchmark.tmp'' None {} no_calls))
       = concat (map (\<lambda>e. map (\<lambda>k. (int k * 2 ^ e, 2 ^ e)) [0..<claimed_count (2 ^ e)])
                   [minExp..<Suc maxExp])"
    using write_offsets_advance [where env = obliging and filename = "''/tmp/benchmark.tmp''"
        and cm = None and ops = "{}" and c = no_calls] fin
    by (simp add: Let_def)
  have b: "minExp \<le> 20 \<and> 20 \<le> maxExp
   \<and> fst (snd (write_size (steady 1048576) ''/tmp/benchmark.tmp'' {} 20 no_calls)) = Inr ()
   \<and> pwrite_ranges (fst (write_size (steady 1048576) ''/tmp/benchmark.tmp'' {} 20 no_calls))
       = [(0, 1048576), (1048576, 1048576), (2097152, 1048576)]
   \<and> claimed_count (2 ^ 20) = 3
   \<and> write_once (steady 1048576) 3 1048576
        \<lparr>filePos = 2097152, writeCycles = 0, fsyncCycles = 0\<rparr> no_calls
       = ([EPwrite 3 1048576 2097152 1048576, EFsync 3 0],
          Inr \<lparr>filePos = 3145728, writeCycles = 1, fsyncCycles = 1\<rparr>,
          \<lparr>n_rdtsc = 3, n_memalign = 0, n_open = 0, n_pwrite = 1, n_write = 0, n_pread = 0,
             n_fsync = 1, n_close = 0, n_remove = 0\<rparr>)"
    using write_offsets_advance [where env = "steady 1048576"
        and filename = "''/tmp/benchmark.tmp''" and ops = "{}" and c = no_calls and e = 20
        and fd = 3 and S = 1048576
        and v = "\<lparr>filePos = 2097152, writeCycles = 0, fsyncCycles = 0\<rparr>"]
    by (simp add: minExp_def maxExp_def steady_def write_count_def claimed_count_def
        smallBigThreshold_def largeCount_def write_size_def sys_open_def sys_close_def
        std_remove_def write_row_def write_loop.simps write_once_def rdtsc_def pwrite_def
        fsync_def no_calls_def numeral_3_eq_3)
  from fin a b show ?thesis by (intro conjI) blast+
qed

section \<open>The repetition count\<close>

lemma requests_Nil [simp]: "requests [] = []"
  by (simp add: requests_def)

lemma requests_Cons [simp]: "requests (ev # evs) = request_of ev @ requests evs"
  by (simp add: requests_def)

lemma requests_append [simp]: "requests (xs @ ys) = requests xs @ requests ys"
  by (simp add: requests_def)

lemma follows_requests:
  assumes "follows evs res plan"
  shows "prefix (requests evs) (requests plan)
     \<and> (\<forall>u. res = Inr u \<longrightarrow> requests evs = requests plan)"
  unfolding requests_def
proof (rule follows_observed [OF assms])
  fix ev
  show "request_of (outline ev) = request_of ev" by (cases ev) simp_all
  then show "prefix (request_of ev) (request_of (outline ev))" by simp
  show "concat (map request_of (diagnostic ev)) = []" by (cases ev) simp_all
qed simp

lemma write_intro_requests [simp]: "requests (write_intro filename cm) = []"
  by (cases cm) (simp_all add: write_intro_def)

lemma read_intro_requests [simp]: "requests (read_intro filename cm) = []"
  by (cases cm) (simp_all add: read_intro_def)

lemma plan_write_size_requests:
  "requests (plan_write_size filename ops e) = replicate (claimed_count (2 ^ e)) (2 ^ e)"
proof -
  have "requests (concat (map (\<lambda>k. [EPwrite 0 (2 ^ e) (int k * 2 ^ e) 0, EFsync 0 0])
          [0..<claimed_count (2 ^ e)]))
      = concat (map (\<lambda>k. [2 ^ e]) [0..<claimed_count (2 ^ e)])"
    unfolding requests_def by (rule observed_concat) simp
  then show ?thesis by (simp add: plan_write_size_def map_replicate_const)
qed

lemma plan_read_size_requests:
  "requests (plan_read_size e) = replicate (claimed_count (2 ^ e)) (2 ^ e)"
proof -
  have "requests (map (\<lambda>i. EPread 0 (2 ^ e)
                ((int i * (claimed_total div int (claimed_count (2 ^ e)))) AND NOT (2 ^ 9 - 1)) 0) xs)
      = replicate (length xs) (2 ^ e)" for xs :: "nat list"
    by (induction xs) simp_all
  then show ?thesis by (simp add: plan_read_size_def)
qed

lemma plan_write_requests:
  "requests (plan_write filename cm ops)
     = concat (map (\<lambda>e. replicate (claimed_count (2 ^ e)) (2 ^ e)) [minExp..<Suc maxExp])"
proof -
  have "requests (concat (map (plan_write_size filename ops) [minExp..<Suc maxExp]))
      = concat (map (\<lambda>e. replicate (claimed_count (2 ^ e)) (2 ^ e)) [minExp..<Suc maxExp])"
    unfolding requests_def
    by (rule observed_concat) (simp add: plan_write_size_requests [unfolded requests_def])
  then show ?thesis by (simp add: plan_write_def)
qed

lemma plan_read_requests:
  "requests (plan_read filename cm ops)
     = concat (map (\<lambda>e. replicate (claimed_count (2 ^ e)) (2 ^ e)) [minExp..<Suc maxExp])"
proof -
  have "requests (concat (map plan_read_size [minExp..<Suc maxExp]))
      = concat (map (\<lambda>e. replicate (claimed_count (2 ^ e)) (2 ^ e)) [minExp..<Suc maxExp])"
    unfolding requests_def
    by (rule observed_concat) (simp add: plan_read_size_requests [unfolded requests_def])
  then show ?thesis by (simp add: plan_read_def)
qed

lemma power_of_two_not_threshold: "real ((2::nat) ^ e) \<noteq> smallBigThreshold"
proof -
  have ne: "(2::nat) ^ e \<noteq> 1000000"
  proof (cases "e < 20")
    case True
    then have "(2::nat) ^ e \<le> 2 ^ 19" by (intro power_increasing) simp_all
    then show ?thesis by simp
  next
    case False
    then have "(2::nat) ^ 20 \<le> 2 ^ e" by (intro power_increasing) simp_all
    then show ?thesis by simp
  qed
  then have "real (2 ^ e) \<noteq> real 1000000" by (simp only: of_nat_eq_iff) simp
  then show ?thesis unfolding smallBigThreshold_def by simp
qed

text \<open>
  Claim C2. The sizes the two sweeps ask of \<open>pwrite\<close> and of \<open>pread\<close>, in order, are
  the same list, whatever the platform answers: each size \<open>S = 2 ^ e\<close> from
  \<open>2 ^ minExp\<close> to \<open>2 ^ maxExp\<close> as many times as the rule of the specification says,
  \<open>smallCount\<close> when \<open>S < smallBigThreshold\<close> and \<open>largeCount\<close> otherwise; a sweep that
  returns has asked exactly that, a sweep that aborts a beginning of it. Lines 89 and 179
  test \<open>size > smallBigThreshold\<close>, which differs from the rule for a size equal to the
  threshold only; no size of the sweeps is equal to the threshold.
\<close>

theorem repetition_count_rule:
  "(let sizes = concat (map (\<lambda>e. replicate (claimed_count (2 ^ e)) (2 ^ e)) [minExp..<Suc maxExp])
    in prefix (requests (fst (benchmark_write env filename cm ops c))) sizes
       \<and> (fst (snd (benchmark_write env filename cm ops c)) = Inr () \<longrightarrow>
            requests (fst (benchmark_write env filename cm ops c)) = sizes)
       \<and> prefix (requests (fst (benchmark_read env filename cm ops c))) sizes
       \<and> (fst (snd (benchmark_read env filename cm ops c)) = Inr () \<longrightarrow>
            requests (fst (benchmark_read env filename cm ops c)) = sizes)
       \<and> (\<forall>S \<in> set sizes. real S \<noteq> smallBigThreshold))"
proof -
  let ?sizes = "concat (map (\<lambda>e. replicate (claimed_count (2 ^ e)) (2 ^ e)) [minExp..<Suc maxExp])"
  from follows_requests [OF benchmark_write_follows [of env filename cm ops c]]
  have w: "prefix (requests (fst (benchmark_write env filename cm ops c))) ?sizes
       \<and> (fst (snd (benchmark_write env filename cm ops c)) = Inr () \<longrightarrow>
            requests (fst (benchmark_write env filename cm ops c)) = ?sizes)"
    unfolding plan_write_requests by blast
  from follows_requests [OF benchmark_read_follows [of env filename cm ops c]]
  have r: "prefix (requests (fst (benchmark_read env filename cm ops c))) ?sizes
       \<and> (fst (snd (benchmark_read env filename cm ops c)) = Inr () \<longrightarrow>
            requests (fst (benchmark_read env filename cm ops c)) = ?sizes)"
    unfolding plan_read_requests by blast
  have n: "\<forall>S \<in> set ?sizes. real S \<noteq> smallBigThreshold"
    using power_of_two_not_threshold by auto
  from w r n show ?thesis unfolding Let_def by blast
qed

theorem repetition_count_rule_witness:
  "fst (snd (benchmark_write obliging ''/tmp/benchmark.tmp'' None {} no_calls)) = Inr ()
   \<and> fst (snd (benchmark_read obliging ''/tmp/benchmark.tmp'' None {} no_calls)) = Inr ()
   \<and> requests (fst (benchmark_write obliging ''/tmp/benchmark.tmp'' None {} no_calls))
       = concat (map (\<lambda>e. replicate (claimed_count (2 ^ e)) (2 ^ e)) [minExp..<Suc maxExp])
   \<and> requests (fst (benchmark_read obliging ''/tmp/benchmark.tmp'' None {} no_calls))
       = requests (fst (benchmark_write obliging ''/tmp/benchmark.tmp'' None {} no_calls))
   \<and> claimed_count (2 ^ 19) = smallCount \<and> claimed_count (2 ^ 20) = largeCount
   \<and> real ((2::nat) ^ 20) \<noteq> smallBigThreshold"
proof -
  have w: "fst (snd (benchmark_write obliging ''/tmp/benchmark.tmp'' None {} no_calls)) = Inr ()"
    using benchmark_write_completes [of obliging no_calls "''/tmp/benchmark.tmp''" None "{}"]
    by (simp add: no_calls_def)
  have r: "fst (snd (benchmark_read obliging ''/tmp/benchmark.tmp'' None {} no_calls)) = Inr ()"
    using benchmark_read_completes [of obliging no_calls "''/tmp/benchmark.tmp''" None "{}"]
    by (simp add: no_calls_def)
  have c: "claimed_count (2 ^ 19) = smallCount \<and> claimed_count (2 ^ 20) = largeCount
      \<and> real ((2::nat) ^ 20) \<noteq> smallBigThreshold"
    by (simp add: claimed_count_def smallBigThreshold_def)
  from repetition_count_rule [where env = obliging and filename = "''/tmp/benchmark.tmp''"
      and cm = None and ops = "{}" and c = no_calls] w r c
  show ?thesis by (simp add: Let_def)
qed

section \<open>Offsets of the read sweep\<close>

lemma accesses_Nil [simp]: "accesses [] = []"
  by (simp add: accesses_def)

lemma accesses_Cons [simp]: "accesses (ev # evs) = access_of ev @ accesses evs"
  by (simp add: accesses_def)

lemma accesses_append [simp]: "accesses (xs @ ys) = accesses xs @ accesses ys"
  by (simp add: accesses_def)

lemma follows_accesses:
  assumes "follows evs res plan"
  shows "prefix (accesses evs) (accesses plan)
     \<and> (\<forall>u. res = Inr u \<longrightarrow> accesses evs = accesses plan)"
  unfolding accesses_def
proof (rule follows_observed [OF assms])
  fix ev
  show "access_of (outline ev) = access_of ev" by (cases ev) simp_all
  then show "prefix (access_of ev) (access_of (outline ev))" by simp
  show "concat (map access_of (diagnostic ev)) = []" by (cases ev) simp_all
qed simp

lemma read_intro_accesses [simp]: "accesses (read_intro filename cm) = []"
  by (cases cm) (simp_all add: read_intro_def)

lemma plan_read_size_accesses:
  "accesses (plan_read_size e)
     = map (\<lambda>i. ReadAt ((int i * (claimed_total div int (claimed_count (2 ^ e))))
                           AND NOT (2 ^ 9 - 1)) (2 ^ e))
           [0..<claimed_count (2 ^ e)]"
proof -
  have "accesses (map (\<lambda>i. EPread 0 (2 ^ e) (f i) 0) xs) = map (\<lambda>i. ReadAt (f i) (2 ^ e)) xs"
    for f and xs :: "nat list"
    by (induction xs) simp_all
  then show ?thesis by (simp add: plan_read_size_def)
qed

lemma plan_read_accesses:
  "accesses (plan_read filename cm ops)
     = Filled (nat claimed_total)
       # concat (map (\<lambda>e. map (\<lambda>i. ReadAt ((int i * (claimed_total div int (claimed_count (2 ^ e))))
                                             AND NOT (2 ^ 9 - 1)) (2 ^ e))
                             [0..<claimed_count (2 ^ e)])
                   [minExp..<Suc maxExp])"
proof -
  have "accesses (concat (map plan_read_size [minExp..<Suc maxExp]))
      = concat (map (\<lambda>e. map (\<lambda>i. ReadAt ((int i * (claimed_total div int (claimed_count (2 ^ e))))
                                             AND NOT (2 ^ 9 - 1)) (2 ^ e))
                             [0..<claimed_count (2 ^ e)])
                   [minExp..<Suc maxExp])"
    unfolding accesses_def
    by (rule observed_concat) (simp add: plan_read_size_accesses [unfolded accesses_def])
  then show ?thesis by (simp add: plan_read_def)
qed

text \<open>
  Claim C1. Let \<open>T\<close> be \<open>claimed_total\<close>, the maximum of \<open>(1 << maxExp) * largeCount\<close> and
  \<open>(1 << 20) * smallCount\<close>. What the read sweep does with its file is, in order: fill
  it with one \<open>write\<close> of \<open>T\<close> bytes, then for each size \<open>S = 2 ^ e\<close> from \<open>2 ^ minExp\<close> to
  \<open>2 ^ maxExp\<close>, with \<open>c\<close> the repetition count of \<open>S\<close>, read \<open>S\<close> bytes \<open>c\<close> times, the
  i-th time at the offset \<open>i * (T div c)\<close> with its low 9 bits cleared. A sweep that
  returns has done exactly that, a sweep that aborts a beginning of it. Every offset read
  is a multiple of 512 and lies between 0 and \<open>T - S\<close>.
\<close>

theorem read_stride_and_offsets:
  "(let seen = accesses (fst (benchmark_read env filename cm ops c));
        planned = Filled (nat claimed_total)
          # concat (map (\<lambda>e. map (\<lambda>i. ReadAt ((int i * (claimed_total div int (claimed_count (2 ^ e))))
                                                AND NOT (2 ^ 9 - 1)) (2 ^ e))
                                [0..<claimed_count (2 ^ e)])
                      [minExp..<Suc maxExp])
    in prefix seen planned
       \<and> (fst (snd (benchmark_read env filename cm ops c)) = Inr () \<longrightarrow> seen = planned)
       \<and> (\<forall>off n. ReadAt off n \<in> set seen \<longrightarrow>
             512 dvd off \<and> 0 \<le> off \<and> off \<le> claimed_total - int n))"
proof -
  let ?seen = "accesses (fst (benchmark_read env filename cm ops c))"
  let ?planned = "Filled (nat claimed_total)
          # concat (map (\<lambda>e. map (\<lambda>i. ReadAt ((int i * (claimed_total div int (claimed_count (2 ^ e))))
                                                AND NOT (2 ^ 9 - 1)) (2 ^ e))
                                [0..<claimed_count (2 ^ e)])
                      [minExp..<Suc maxExp])"
  from follows_accesses [OF benchmark_read_follows [of env filename cm ops c]]
  have p: "prefix ?seen ?planned"
    and q: "fst (snd (benchmark_read env filename cm ops c)) = Inr () \<longrightarrow> ?seen = ?planned"
    unfolding plan_read_accesses by blast+
  have b: "512 dvd off \<and> 0 \<le> off \<and> off \<le> claimed_total - int n"
    if "ReadAt off n \<in> set ?seen" for off n
  proof -
    from that set_mono_prefix [OF p] have "ReadAt off n \<in> set ?planned" by blast
    then obtain e i where e: "minExp \<le> e" "e \<le> maxExp" and i: "i < claimed_count (2 ^ e)"
      and off: "off = (int i * (claimed_total div int (claimed_count (2 ^ e)))) AND NOT (2 ^ 9 - 1)"
      and n: "n = 2 ^ e"
      by auto
    from read_offset_exact [OF e i] show ?thesis
      unfolding off n by simp
  qed
  from p q b show ?thesis unfolding Let_def by blast
qed

theorem read_stride_and_offsets_witness:
  "fst (snd (benchmark_read obliging ''/tmp/benchmark.tmp'' None {} no_calls)) = Inr ()
   \<and> accesses (fst (benchmark_read obliging ''/tmp/benchmark.tmp'' None {} no_calls))
       = Filled (nat claimed_total)
          # concat (map (\<lambda>e. map (\<lambda>i. ReadAt ((int i * (claimed_total div int (claimed_count (2 ^ e))))
                                                AND NOT (2 ^ 9 - 1)) (2 ^ e))
                                [0..<claimed_count (2 ^ e)])
                      [minExp..<Suc maxExp])
   \<and> claimed_total = 805306368
   \<and> claimed_total div int (claimed_count (2 ^ 28)) = 268435456
   \<and> (int 2 * (claimed_total div int (claimed_count (2 ^ 28)))) AND NOT (2 ^ 9 - 1) = 536870912
   \<and> claimed_total div int (claimed_count (2 ^ 9)) = 8053063
   \<and> (int 1 * (claimed_total div int (claimed_count (2 ^ 9)))) AND NOT (2 ^ 9 - 1) = 8052736
   \<and> accesses (fst (benchmark_read ((steady 512)\<lparr>pread_res := (\<lambda>k. if k < 2 then 512 else 0)\<rparr>)
          ''/tmp/benchmark.tmp'' None {} no_calls))
       = [Filled 805306368, ReadAt 0 512, ReadAt 8052736 512, ReadAt 16105984 512]"
proof -
  have r: "fst (snd (benchmark_read obliging ''/tmp/benchmark.tmp'' None {} no_calls)) = Inr ()"
    using benchmark_read_completes [of obliging no_calls "''/tmp/benchmark.tmp''" None "{}"]
    by (simp add: no_calls_def)
  have a: "accesses (fst (benchmark_read obliging ''/tmp/benchmark.tmp'' None {} no_calls))
       = Filled (nat claimed_total)
          # concat (map (\<lambda>e. map (\<lambda>i. ReadAt ((int i * (claimed_total div int (claimed_count (2 ^ e))))
                                                AND NOT (2 ^ 9 - 1)) (2 ^ e))
                                [0..<claimed_count (2 ^ e)])
                      [minExp..<Suc maxExp])"
    using read_stride_and_offsets [where env = obliging and filename = "''/tmp/benchmark.tmp''"
        and cm = None and ops = "{}" and c = no_calls] r
    unfolding Let_def by blast
  have m: "(2 ^ 9 - 1 :: int) = 512 - 1" by simp
  have v: "claimed_total = 805306368
   \<and> claimed_total div int (claimed_count (2 ^ 28)) = 268435456
   \<and> (int 2 * (claimed_total div int (claimed_count (2 ^ 28)))) AND NOT (2 ^ 9 - 1) = 536870912
   \<and> claimed_total div int (claimed_count (2 ^ 9)) = 8053063
   \<and> (int 1 * (claimed_total div int (claimed_count (2 ^ 9)))) AND NOT (2 ^ 9 - 1) = 8052736"
    unfolding m int_clear_low
    by (simp add: claimed_total_value claimed_count_def smallBigThreshold_def smallCount_def
        largeCount_def)
  have s: "accesses (fst (benchmark_read ((steady 512)\<lparr>pread_res := (\<lambda>k. if k < 2 then 512 else 0)\<rparr>)
          ''/tmp/benchmark.tmp'' None {} no_calls))
       = [Filled 805306368, ReadAt 0 512, ReadAt 8052736 512, ReadAt 16105984 512]"
    by (simp add: benchmark_read_def posix_memalign_def sys_open_def sys_write_def fsync_def
        steady_def no_calls_def read_intro_def minExp_def maxExp_def read_maxSize_value
        read_sizes.simps [of _ _ 9] read_size_def read_count_def smallBigThreshold_def
        smallCount_def filePosIncrement_def read_loop.simps read_once_def rdtsc_def pread_def
        read_filePos_def Let_def)
  from r a v s show ?thesis by (intro conjI) blast+
qed

section \<open>No overflow in the offsets\<close>

lemma pread_ranges_Nil [simp]: "pread_ranges [] = []"
  by (simp add: pread_ranges_def)

lemma pread_ranges_Cons [simp]: "pread_ranges (ev # evs) = pread_range ev @ pread_ranges evs"
  by (simp add: pread_ranges_def)

lemma pread_ranges_append [simp]: "pread_ranges (xs @ ys) = pread_ranges xs @ pread_ranges ys"
  by (simp add: pread_ranges_def)

lemma follows_pread_ranges:
  assumes "follows evs res plan"
  shows "prefix (pread_ranges evs) (pread_ranges plan)
     \<and> (\<forall>u. res = Inr u \<longrightarrow> pread_ranges evs = pread_ranges plan)"
  unfolding pread_ranges_def
proof (rule follows_observed [OF assms])
  fix ev
  show "pread_range (outline ev) = pread_range ev" by (cases ev) simp_all
  then show "prefix (pread_range ev) (pread_range (outline ev))" by simp
  show "concat (map pread_range (diagnostic ev)) = []" by (cases ev) simp_all
qed simp

lemma read_intro_pread_ranges [simp]: "pread_ranges (read_intro filename cm) = []"
  by (cases cm) (simp_all add: read_intro_def)

lemma plan_read_size_ranges:
  "pread_ranges (plan_read_size e)
     = map (\<lambda>i. ((int i * (claimed_total div int (claimed_count (2 ^ e)))) AND NOT (2 ^ 9 - 1),
                  2 ^ e))
           [0..<claimed_count (2 ^ e)]"
proof -
  have "pread_ranges (map (\<lambda>i. EPread 0 (2 ^ e) (f i) 0) xs) = map (\<lambda>i. (f i, 2 ^ e)) xs"
    for f and xs :: "nat list"
    by (induction xs) simp_all
  then show ?thesis by (simp add: plan_read_size_def)
qed

lemma plan_read_ranges:
  "pread_ranges (plan_read filename cm ops)
     = concat (map (\<lambda>e. map (\<lambda>i. ((int i * (claimed_total div int (claimed_count (2 ^ e))))
                                     AND NOT (2 ^ 9 - 1), 2 ^ e))
                           [0..<claimed_count (2 ^ e)])
                 [minExp..<Suc maxExp])"
proof -
  have "pread_ranges (concat (map plan_read_size [minExp..<Suc maxExp]))
      = concat (map (\<lambda>e. map (\<lambda>i. ((int i * (claimed_total div int (claimed_count (2 ^ e))))
                                     AND NOT (2 ^ 9 - 1), 2 ^ e))
                           [0..<claimed_count (2 ^ e)])
                 [minExp..<Suc maxExp])"
    unfolding pread_ranges_def
    by (rule observed_concat) (simp add: plan_read_size_ranges [unfolded pread_ranges_def])
  then show ?thesis by (simp add: plan_read_def)
qed

lemma claimed_extent:
  assumes "minExp \<le> e" and "e \<le> maxExp" and "k < claimed_count (2 ^ e)"
  shows "(int k + 1) * 2 ^ e \<le> int (claimed_count (2 ^ e)) * 2 ^ e"
    and "int (claimed_count (2 ^ e)) * 2 ^ e \<le> 3 * 2 ^ 28"
proof -
  note c = counts_as_claimed(1) [OF assms(1,2)]
  from assms(3) have "Suc k \<le> write_count (push_bit e 1)" by (simp add: c del: push_bit_of_1)
  from write_extent [OF assms(1,2) this]
  have a: "Suc k * 2 ^ e \<le> claimed_count (2 ^ e) * 2 ^ e"
    and b: "claimed_count (2 ^ e) * 2 ^ e \<le> 3 * 2 ^ 28"
    unfolding c by blast+
  from a have "int (Suc k * 2 ^ e) \<le> int (claimed_count (2 ^ e) * 2 ^ e)"
    by (simp only: of_nat_le_iff)
  then show "(int k + 1) * 2 ^ e \<le> int (claimed_count (2 ^ e)) * 2 ^ e"
    by (simp add: algebra_simps)
  from b have "int (claimed_count (2 ^ e) * 2 ^ e) \<le> int (3 * 2 ^ 28)"
    by (simp only: of_nat_le_iff)
  then show "int (claimed_count (2 ^ e)) * 2 ^ e \<le> 3 * 2 ^ 28" by simp
qed

text \<open>
  Claim C10. With the configured constants no offset computation leaves its type,
  whatever the platform answers. Write sweep: every offset passed to \<open>pwrite\<close>, which is
  the value of the \<open>uint32_t filePos\<close>, is the number \<open>k * S\<close> for a \<open>k\<close> below the
  repetition count of the size \<open>S\<close> written, and the position after that write,
  \<open>(k + 1) * S\<close>, is at most \<open>count * S\<close>, which is at most \<open>3 * 2 ^ 28\<close> and so
  below \<open>2 ^ 32\<close>: \<open>filePos += writeSize\<close> never wraps. Read sweep: every offset
  passed to \<open>pread\<close>, which is the value of the \<open>int filePos\<close>, is the number
  \<open>i * (T div count)\<close> with its low 9 bits cleared, for an \<open>i\<close> below the repetition count,
  where the product is at least 0 and at most \<open>(count - 1) * (T div count)\<close>, which is
  below \<open>2 ^ 31\<close>; and \<open>T\<close> is \<open>max (3 * 2 ^ 28) (100 * 2 ^ 20)\<close>.
\<close>

theorem offsets_do_not_overflow:
  "(\<forall>(off, n) \<in> set (pwrite_ranges (fst (benchmark_write env filename cm ops c))).
      \<exists>k < claimed_count n.
        off = int k * int n
        \<and> (int k + 1) * int n \<le> int (claimed_count n) * int n
        \<and> int (claimed_count n) * int n \<le> 3 * 2 ^ 28)
   \<and> (3 :: int) * 2 ^ 28 < 2 ^ 32
   \<and> (\<forall>(off, n) \<in> set (pread_ranges (fst (benchmark_read env filename cm ops c))).
      \<exists>i < claimed_count n.
        off = (int i * (claimed_total div int (claimed_count n))) AND NOT (2 ^ 9 - 1)
        \<and> 0 \<le> int i * (claimed_total div int (claimed_count n))
        \<and> int i * (claimed_total div int (claimed_count n))
             \<le> (int (claimed_count n) - 1) * (claimed_total div int (claimed_count n))
        \<and> (int (claimed_count n) - 1) * (claimed_total div int (claimed_count n)) < 2 ^ 31
        \<and> 0 \<le> off \<and> off < 2 ^ 31)
   \<and> claimed_total = max (3 * 2 ^ 28) (100 * 2 ^ 20)"
proof (intro conjI)
  let ?r = "pwrite_ranges (fst (benchmark_write env filename cm ops c))"
  from follows_pwrite_ranges [OF benchmark_write_follows [of env filename cm ops c]]
  have p: "prefix ?r (concat (map (\<lambda>e. map (\<lambda>k. (int k * 2 ^ e, 2 ^ e)) [0..<claimed_count (2 ^ e)])
                 [minExp..<Suc maxExp]))"
    unfolding plan_write_ranges by blast
  show "\<forall>(off, n) \<in> set ?r.
      \<exists>k < claimed_count n.
        off = int k * int n
        \<and> (int k + 1) * int n \<le> int (claimed_count n) * int n
        \<and> int (claimed_count n) * int n \<le> 3 * 2 ^ 28"
  proof (clarify)
    fix off n assume "(off, n) \<in> set ?r"
    with set_mono_prefix [OF p] obtain e k where e: "minExp \<le> e" "e \<le> maxExp"
      and k: "k < claimed_count (2 ^ e)" and off: "off = int k * 2 ^ e" and n: "n = 2 ^ e"
      by auto
    from claimed_extent [OF e k] k
    show "\<exists>k < claimed_count n.
        off = int k * int n
        \<and> (int k + 1) * int n \<le> int (claimed_count n) * int n
        \<and> int (claimed_count n) * int n \<le> 3 * 2 ^ 28"
      unfolding off n by (intro exI [of _ k]) simp
  qed
next
  show "(3 :: int) * 2 ^ 28 < 2 ^ 32" by simp
next
  let ?r = "pread_ranges (fst (benchmark_read env filename cm ops c))"
  from follows_pread_ranges [OF benchmark_read_follows [of env filename cm ops c]]
  have p: "prefix ?r (concat (map (\<lambda>e. map (\<lambda>i. ((int i * (claimed_total div int (claimed_count (2 ^ e))))
                                     AND NOT (2 ^ 9 - 1), 2 ^ e))
                           [0..<claimed_count (2 ^ e)])
                 [minExp..<Suc maxExp]))"
    unfolding plan_read_ranges by blast
  show "\<forall>(off, n) \<in> set ?r.
      \<exists>i < claimed_count n.
        off = (int i * (claimed_total div int (claimed_count n))) AND NOT (2 ^ 9 - 1)
        \<and> 0 \<le> int i * (claimed_total div int (claimed_count n))
        \<and> int i * (claimed_total div int (claimed_count n))
             \<le> (int (claimed_count n) - 1) * (claimed_total div int (claimed_count n))
        \<and> (int (claimed_count n) - 1) * (claimed_total div int (claimed_count n)) < 2 ^ 31
        \<and> 0 \<le> off \<and> off < 2 ^ 31"
  proof (clarify)
    fix off n assume "(off, n) \<in> set ?r"
    with set_mono_prefix [OF p] obtain e i where e: "minExp \<le> e" "e \<le> maxExp"
      and i: "i < claimed_count (2 ^ e)"
      and off: "off = (int i * (claimed_total div int (claimed_count (2 ^ e)))) AND NOT (2 ^ 9 - 1)"
      and n: "n = 2 ^ e"
      by auto
    from e have "(2::int) ^ e \<ge> 0" by simp
    from read_offset_exact [OF e i] i
    show "\<exists>i < claimed_count n.
        off = (int i * (claimed_total div int (claimed_count n))) AND NOT (2 ^ 9 - 1)
        \<and> 0 \<le> int i * (claimed_total div int (claimed_count n))
        \<and> int i * (claimed_total div int (claimed_count n))
             \<le> (int (claimed_count n) - 1) * (claimed_total div int (claimed_count n))
        \<and> (int (claimed_count n) - 1) * (claimed_total div int (claimed_count n)) < 2 ^ 31
        \<and> 0 \<le> off \<and> off < 2 ^ 31"
      unfolding off n by (intro exI [of _ i]) (simp add: claimed_total_value)
  qed
next
  show "claimed_total = max (3 * 2 ^ 28) (100 * 2 ^ 20)" by (simp add: claimed_total_value)
qed

theorem offsets_do_not_overflow_witness:
  "(536870912, 268435456) \<in> set (pwrite_ranges
       (fst (benchmark_write obliging ''/tmp/benchmark.tmp'' None {} no_calls)))
   \<and> (\<exists>k < claimed_count 268435456.
        (536870912 :: int) = int k * int 268435456
        \<and> (int k + 1) * int 268435456 \<le> int (claimed_count 268435456) * int 268435456
        \<and> int (claimed_count 268435456) * int 268435456 \<le> 3 * 2 ^ 28)
   \<and> (536870912, 268435456) \<in> set (pread_ranges
       (fst (benchmark_read obliging ''/tmp/benchmark.tmp'' None {} no_calls)))
   \<and> (\<exists>i < claimed_count 268435456.
        (536870912 :: int) = (int i * (claimed_total div int (claimed_count 268435456)))
                               AND NOT (2 ^ 9 - 1)
        \<and> 0 \<le> int i * (claimed_total div int (claimed_count 268435456))
        \<and> int i * (claimed_total div int (claimed_count 268435456))
             \<le> (int (claimed_count 268435456) - 1)
                  * (claimed_total div int (claimed_count 268435456))
        \<and> (int (claimed_count 268435456) - 1)
              * (claimed_total div int (claimed_count 268435456)) < 2 ^ 31
        \<and> (0 :: int) \<le> 536870912 \<and> (536870912 :: int) < 2 ^ 31)"
proof -
  let ?w = "pwrite_ranges (fst (benchmark_write obliging ''/tmp/benchmark.tmp'' None {} no_calls))"
  let ?r = "pread_ranges (fst (benchmark_read obliging ''/tmp/benchmark.tmp'' None {} no_calls))"
  have c28: "claimed_count (2 ^ 28) = 3" by (rule claimed_count_large) simp
  have m: "(2 ^ 9 - 1 :: int) = 512 - 1" by simp
  have w: "fst (snd (benchmark_write obliging ''/tmp/benchmark.tmp'' None {} no_calls)) = Inr ()"
    using benchmark_write_completes [of obliging no_calls "''/tmp/benchmark.tmp''" None "{}"]
    by (simp add: no_calls_def)
  have r: "fst (snd (benchmark_read obliging ''/tmp/benchmark.tmp'' None {} no_calls)) = Inr ()"
    using benchmark_read_completes [of obliging no_calls "''/tmp/benchmark.tmp''" None "{}"]
    by (simp add: no_calls_def)
  from follows_pwrite_ranges [OF benchmark_write_follows
      [of obliging "''/tmp/benchmark.tmp''" None "{}" no_calls]] w
  have "?w = concat (map (\<lambda>e. map (\<lambda>k. (int k * 2 ^ e, 2 ^ e)) [0..<claimed_count (2 ^ e)])
                 [minExp..<Suc maxExp])"
    unfolding plan_write_ranges by blast
  moreover have "(536870912 :: int, 268435456 :: nat)
      \<in> set (map (\<lambda>k. (int k * 2 ^ 28, 2 ^ 28)) [0..<claimed_count (2 ^ 28)])"
    unfolding c28 by (simp add: upt_rec)
  ultimately have mw: "(536870912, 268435456) \<in> set ?w"
    by (auto simp add: minExp_def maxExp_def intro!: bexI [of _ 28] simp del: upt_Suc)
  from follows_pread_ranges [OF benchmark_read_follows
      [of obliging "''/tmp/benchmark.tmp''" None "{}" no_calls]] r
  have "?r = concat (map (\<lambda>e. map (\<lambda>i. ((int i * (claimed_total div int (claimed_count (2 ^ e))))
                                     AND NOT (2 ^ 9 - 1), 2 ^ e))
                           [0..<claimed_count (2 ^ e)])
                 [minExp..<Suc maxExp])"
    unfolding plan_read_ranges by blast
  moreover have "(536870912 :: int, 268435456 :: nat)
      \<in> set (map (\<lambda>i. ((int i * (claimed_total div int (claimed_count (2 ^ 28))))
                                     AND NOT (2 ^ 9 - 1), 2 ^ 28))
                           [0..<claimed_count (2 ^ 28)])"
    unfolding c28 m int_clear_low by (simp add: upt_rec claimed_total_value)
  ultimately have mr: "(536870912, 268435456) \<in> set ?r"
    by (auto simp add: minExp_def maxExp_def intro!: bexI [of _ 28] simp del: upt_Suc)
  note inst = offsets_do_not_overflow [where env = obliging and filename = "''/tmp/benchmark.tmp''"
      and cm = None and ops = "{}" and c = no_calls]
  from inst have "\<forall>(off, n) \<in> set ?w.
      \<exists>k < claimed_count n.
        off = int k * int n
        \<and> (int k + 1) * int n \<le> int (claimed_count n) * int n
        \<and> int (claimed_count n) * int n \<le> 3 * 2 ^ 28"
    by blast
  from bspec [OF this mw] have a: "\<exists>k < claimed_count 268435456.
        (536870912 :: int) = int k * int 268435456
        \<and> (int k + 1) * int 268435456 \<le> int (claimed_count 268435456) * int 268435456
        \<and> int (claimed_count 268435456) * int 268435456 \<le> 3 * 2 ^ 28"
    by simp
  from inst have "\<forall>(off, n) \<in> set ?r.
      \<exists>i < claimed_count n.
        off = (int i * (claimed_total div int (claimed_count n))) AND NOT (2 ^ 9 - 1)
        \<and> 0 \<le> int i * (claimed_total div int (claimed_count n))
        \<and> int i * (claimed_total div int (claimed_count n))
             \<le> (int (claimed_count n) - 1) * (claimed_total div int (claimed_count n))
        \<and> (int (claimed_count n) - 1) * (claimed_total div int (claimed_count n)) < 2 ^ 31
        \<and> 0 \<le> off \<and> off < 2 ^ 31"
    by blast
  from bspec [OF this mr] have b: "\<exists>i < claimed_count 268435456.
        (536870912 :: int) = (int i * (claimed_total div int (claimed_count 268435456)))
                               AND NOT (2 ^ 9 - 1)
        \<and> 0 \<le> int i * (claimed_total div int (claimed_count 268435456))
        \<and> int i * (claimed_total div int (claimed_count 268435456))
             \<le> (int (claimed_count 268435456) - 1)
                  * (claimed_total div int (claimed_count 268435456))
        \<and> (int (claimed_count 268435456) - 1)
              * (claimed_total div int (claimed_count 268435456)) < 2 ^ 31
        \<and> (0 :: int) \<le> 536870912 \<and> (536870912 :: int) < 2 ^ 31"
    by simp
  from mw a mr b show ?thesis by (intro conjI)
qed

section \<open>The life of the buffer and of the descriptors\<close>

lemma stages_Nil [simp]: "stages [] = []"
  by (simp add: stages_def)

lemma stages_Cons [simp]: "stages (ev # evs) = stage_of ev @ stages evs"
  by (simp add: stages_def)

lemma stages_append [simp]: "stages (xs @ ys) = stages xs @ stages ys"
  by (simp add: stages_def)




lemma write_intro_stages [simp]: "stages (write_intro filename cm) = []"
  by (cases cm) (simp_all add: write_intro_def)

lemma read_intro_stages [simp]: "stages (read_intro filename cm) = []"
  by (cases cm) (simp_all add: read_intro_def)










section \<open>The file at the target path\<close>

lemma removals_Nil [simp]: "removals [] = []"
  by (simp add: removals_def)

lemma removals_Cons [simp]: "removals (ev # evs) = removal_of ev @ removals evs"
  by (simp add: removals_def)

lemma removals_append [simp]: "removals (xs @ ys) = removals xs @ removals ys"
  by (simp add: removals_def)



lemma file_steps_Nil [simp]: "file_steps [] = []"
  by (simp add: file_steps_def)

lemma file_steps_Cons [simp]: "file_steps (ev # evs) = file_step_of ev @ file_steps evs"
  by (simp add: file_steps_def)






lemma unat_power_2: "e < 32 \<Longrightarrow> unat (2 ^ e :: u32) = 2 ^ e"
  using unat_push_bit_1 [of e] by (simp only: push_bit_of_1)

lemma write_intro_file_steps [simp]: "file_steps (write_intro filename cm) = []"
  by (cases cm) (simp_all add: write_intro_def)

lemma read_intro_file_steps [simp]: "file_steps (read_intro filename cm) = []"
  by (cases cm) (simp_all add: read_intro_def)










section \<open>Transfers that come short\<close>

lemma read_loop_answers:
  "\<forall>fd' n off r. EPread fd' n off r \<in> set (fst (read_loop env fd S inc count i rc c))
     \<longrightarrow> (\<exists>k. r = pread_res env k)"
proof -
  consider (all) "\<forall>k < count - i. word_of_int (pread_res env (n_pread c + k)) = S"
    | (bad) m where "m < count - i" "\<forall>k < m. word_of_int (pread_res env (n_pread c + k)) = S"
        "word_of_int (pread_res env (n_pread c + m)) \<noteq> S"
    using first_failure [of "count - i" "\<lambda>k. word_of_int (pread_res env (n_pread c + k)) = S"]
    by blast
  then show ?thesis
  proof cases
    case all
    show ?thesis unfolding read_loop_all_ok [OF all] by auto
  next
    case bad
    show ?thesis unfolding read_loop_fails_at [OF bad] by auto
  qed
qed

lemma read_size_answers:
  "\<forall>fd' n off r. EPread fd' n off r \<in> set (fst (read_size env fd e c))
     \<longrightarrow> (\<exists>k. r = pread_res env k)"
proof -
  let ?L = "read_loop env fd (push_bit e 1) (filePosIncrement (read_count (push_bit e 1)))
     (read_count (push_bit e 1)) 0 0 c"
  obtain evs res c' where L: "?L = (evs, res, c')" by (cases ?L) auto
  from read_loop_answers [of env fd "push_bit e 1" "filePosIncrement (read_count (push_bit e 1))"
       "read_count (push_bit e 1)" 0 0 c] L
  have "\<forall>fd' n off r. EPread fd' n off r \<in> set evs \<longrightarrow> (\<exists>k. r = pread_res env k)" by simp
  with L show ?thesis
    by (cases res) (auto simp add: read_size_def Let_def simp del: push_bit_of_1)
qed

lemma read_sizes_answers:
  "\<forall>fd' n off r. EPread fd' n off r \<in> set (fst (read_sizes env fd e c))
     \<longrightarrow> (\<exists>k. r = pread_res env k)"
proof (induction "Suc maxExp - e" arbitrary: e c)
  case 0
  then have "\<not> e \<le> maxExp" by simp
  then show ?case by (simp add: read_sizes.simps [of env fd e c])
next
  case (Suc n)
  from Suc.hyps(2) have le: "e \<le> maxExp" and n: "n = Suc maxExp - Suc e" by simp_all
  obtain evs res c' where rs: "read_size env fd e c = (evs, res, c')"
    by (cases "read_size env fd e c") auto
  from read_size_answers [of env fd e c] rs
  have q: "\<forall>fd' n off r. EPread fd' n off r \<in> set evs \<longrightarrow> (\<exists>k. r = pread_res env k)" by simp
  show ?case
  proof (cases res)
    case (Inl code)
    with rs q le show ?thesis by (simp add: read_sizes.simps [of env fd e c])
  next
    case (Inr u)
    obtain evs' res' c'' where r: "read_sizes env fd (Suc e) c' = (evs', res', c'')"
      by (cases "read_sizes env fd (Suc e) c'") auto
    from Suc.hyps(1) [OF n, of c'] r
    have q': "\<forall>fd' n off r. EPread fd' n off r \<in> set evs' \<longrightarrow> (\<exists>k. r = pread_res env k)"
      by simp
    from Inr rs q q' r le show ?thesis
      by (auto simp add: read_sizes.simps [of env fd e c])
  qed
qed

lemma read_intro_no_pread: "EPread fd n off r \<notin> set (read_intro filename cm)"
  by (cases cm) (simp_all add: read_intro_def)

lemma benchmark_read_answers:
  "\<forall>fd n off r. EPread fd n off r \<in> set (fst (benchmark_read env filename cm ops c))
     \<longrightarrow> (\<exists>k. r = pread_res env k)"
proof -
  let ?c1 = "c\<lparr>n_memalign := Suc (n_memalign c)\<rparr>"
  let ?c2 = "?c1\<lparr>n_open := Suc (n_open ?c1)\<rparr>"
  let ?c3 = "?c2\<lparr>n_write := Suc (n_write ?c2)\<rparr>"
  let ?c4 = "?c3\<lparr>n_fsync := Suc (n_fsync ?c3)\<rparr>"
  let ?fd = "open_res env (n_open c)"
  obtain evs res c5 where r: "read_sizes env ?fd minExp ?c4 = (evs, res, c5)"
    by (cases "read_sizes env ?fd minExp ?c4") auto
  from read_sizes_answers [of env ?fd minExp ?c4] r
  have q: "\<forall>fd' n off r. EPread fd' n off r \<in> set evs \<longrightarrow> (\<exists>k. r = pread_res env k)" by simp
  from r q show ?thesis
    by (cases res)
       (auto simp add: benchmark_read_def posix_memalign_def sys_open_def sys_write_def
          fsync_def sys_close_def std_remove_def Let_def read_intro_no_pread)
qed

lemma no_pread_ranges: "pread_ranges evs = [] \<Longrightarrow> EPread fd n off r \<notin> set evs"
  by (induction evs) auto

lemma write_intro_pread_ranges [simp]: "pread_ranges (write_intro filename cm) = []"
  by (cases cm) (simp_all add: write_intro_def)

lemma plan_write_no_pread: "pread_ranges (plan_write filename cm ops) = []"
proof -
  have a: "pread_ranges (concat (map (\<lambda>k. [EPwrite 0 (2 ^ e) (int k * 2 ^ e) 0, EFsync 0 0]) xs)) = []"
    for e and xs :: "nat list"
    by (induction xs) simp_all
  have "pread_ranges (concat (map (plan_write_size filename ops) xs)) = []" for xs
    by (induction xs) (simp_all add: plan_write_size_def a)
  then show ?thesis by (simp add: plan_write_def)
qed

lemma benchmark_write_no_pread:
  "EPread fd n off r \<notin> set (fst (benchmark_write env filename cm ops c))"
proof (rule no_pread_ranges)
  from follows_pread_ranges [OF benchmark_write_follows [of env filename cm ops c]]
  show "pread_ranges (fst (benchmark_write env filename cm ops c)) = []"
    unfolding plan_write_no_pread by simp
qed

lemma main_answers:
  "\<forall>fd n off r. EPread fd n off r \<in> set (fst (main env argv)) \<longrightarrow> (\<exists>k. r = pread_res env k)"
proof (cases "3 \<le> length argv")
  case True
  then show ?thesis by (simp add: main_usage)
next
  case False
  let ?f = "if length argv = 2 then argv ! 1 else ''/tmp/benchmark.tmp''"
  let ?cm = "Some ''With O_DIRECT|O_SYNC''"
  obtain evs res c1 where W: "benchmark_write env ?f ?cm {O_DIRECT, O_SYNC} no_calls
      = (evs, res, c1)"
    by (cases "benchmark_write env ?f ?cm {O_DIRECT, O_SYNC} no_calls") auto
  obtain evs' res' c2 where R: "benchmark_read env ?f ?cm {O_DIRECT, O_SYNC} c1
      = (evs', res', c2)"
    by (cases "benchmark_read env ?f ?cm {O_DIRECT, O_SYNC} c1") auto
  from benchmark_write_no_pread [of _ _ _ _ env ?f ?cm "{O_DIRECT, O_SYNC}" no_calls] W
  have w: "\<forall>fd n off r. EPread fd n off r \<notin> set evs" by simp
  from benchmark_read_answers [of env ?f ?cm "{O_DIRECT, O_SYNC}" c1] R
  have r: "\<forall>fd n off r. EPread fd n off r \<in> set evs' \<longrightarrow> (\<exists>k. r = pread_res env k)" by simp
  from w r W R show ?thesis
    unfolding main_run [OF False] by (cases res; cases res') auto
qed

lemma stored_result:
  assumes "e \<le> maxExp" and "- 1 \<le> r" and "r < 2 ^ 32"
  shows "((word_of_int r :: u32) = word_of_nat (2 ^ e)) = (r = 2 ^ e)"
proof
  assume r: "r = 2 ^ e"
  show "(word_of_int r :: u32) = word_of_nat (2 ^ e)"
    unfolding r by simp
next
  assume eq: "(word_of_int r :: u32) = word_of_nat (2 ^ e)"
  from assms(1) have e: "e < 32" by (simp add: maxExp_def)
  from assms(1) have "(2::int) ^ e \<le> 2 ^ 28" by (intro power_increasing) (simp_all add: maxExp_def)
  then have p: "(2::int) ^ e \<le> 268435456" by simp
  have "uint (word_of_nat (2 ^ e) :: u32) = uint (2 ^ e :: u32)" by simp
  also have "\<dots> = int (unat (2 ^ e :: u32))" by simp
  also have "\<dots> = 2 ^ e" by (simp only: unat_power_2 [OF e] of_nat_power of_nat_numeral)
  finally have u: "uint (word_of_nat (2 ^ e) :: u32) = 2 ^ e" .
  have m: "uint (word_of_int r :: u32) = r mod 2 ^ 32"
    by (simp only: uint_word_of_int) simp
  from eq u m have rm: "r mod 2 ^ 32 = 2 ^ e" by simp
  show "r = 2 ^ e"
  proof (cases "r = - 1")
    case True
    with rm have "(2::int) ^ e = 4294967295" by simp
    with p show ?thesis by simp
  next
    case False
    with assms(2) have "0 \<le> r" by simp
    with assms(3) have "r mod 2 ^ 32 = r" by simp
    with rm show ?thesis by simp
  qed
qed

lemma pread_requested: "EPread fd n off r \<in> set evs \<Longrightarrow> n \<in> set (requests evs)"
  by (induction evs) auto

lemma transfers_of_requests:
  "\<forall>ev \<in> set evs. \<not> short ev \<Longrightarrow> transfers evs = map (\<lambda>n. (n, int n)) (requests evs)"
proof (induction evs)
  case Nil
  then show ?case by simp
next
  case (Cons ev evs)
  then show ?case by (cases ev) simp_all
qed

lemma split_at_unique:
  assumes "pre @ ev # post = pre' @ ev' # post'" and "P ev"
    and "\<forall>x \<in> set pre'. \<not> P x" and "\<forall>x \<in> set post'. \<not> P x"
  shows "pre = pre' \<and> ev = ev' \<and> post = post'"
  using assms
proof (induction pre arbitrary: pre')
  case Nil
  then show ?case by (cases pre') auto
next
  case (Cons a as)
  show ?case
  proof (cases pre')
    case Nil
    with Cons.prems show ?thesis by auto
  next
    case (Cons x xs)
    with Cons.prems have "as @ ev # post = xs @ ev' # post'" and "a = x"
      and "\<forall>x \<in> set xs. \<not> P x" by simp_all
    with Cons.IH [of xs] Cons.prems(2,4) Cons show ?thesis by simp
  qed
qed

lemma diagnostic_not_short: "\<forall>x \<in> set (diagnostic ev @ [EExit (- 1)]). \<not> short x"
  by (cases ev) simp_all

text \<open>
  Claim C3. Let \<open>sizes\<close> be the transfers of a sweep: each size \<open>S = 2 ^ e\<close> from
  \<open>2 ^ minExp\<close> to \<open>2 ^ maxExp\<close>, the repetition count of \<open>S\<close> times. The sizes the
  program asks of \<open>pwrite\<close> and \<open>pread\<close> are, in order, a beginning of \<open>sizes\<close> for the
  write sweep followed by \<open>sizes\<close> for the read sweep; when the program reaches its end
  they are all of it, and every transfer returned exactly the size asked. Whenever a
  transfer returns anything else, no transfer before it did, what follows it in the run
  is the diagnostic of the call (\<open>perror\<close>, after the line about the short read for
  \<open>pread\<close>) and \<open>exit (-1)\<close>, and nothing more: the call is not repeated and no other
  follows. The status of a run that ends by \<open>exit\<close> is not 0, and the \<open>exit\<close> is its last
  event. The results of \<open>pread\<close> are taken to be -1 or a number of bytes below
  \<open>2 ^ 32\<close>, as they are when \<open>pread\<close> returns at most the size asked: line 188 stores
  the result in a \<open>uint32_t\<close> before comparing it.
\<close>

theorem repetitions_complete_or_abort:
  assumes contract: "\<forall>k. - 1 \<le> pread_res env k \<and> pread_res env k < 2 ^ 32"
  shows "(let sizes = concat (map (\<lambda>e. replicate (claimed_count (2 ^ e)) (2 ^ e))
                            [minExp..<Suc maxExp])
          in prefix (requests (fst (main env argv))) (sizes @ sizes)
             \<and> (snd (main env argv) = Inr 0 \<longrightarrow>
                  transfers (fst (main env argv)) = map (\<lambda>n. (n, int n)) (sizes @ sizes)))
       \<and> (\<forall>pre ev post. fst (main env argv) = pre @ ev # post \<and> short ev \<longrightarrow>
            (\<forall>x \<in> set pre. \<not> short x)
            \<and> post = diagnostic ev @ [EExit (- 1)]
            \<and> snd (main env argv) = Inl (- 1))
       \<and> exit_status (- 1) \<noteq> 0
       \<and> (\<forall>code. snd (main env argv) = Inl code \<longrightarrow>
            code = - 1 \<and> fst (main env argv) \<noteq> []
            \<and> last (fst (main env argv)) = EExit (- 1))"
proof -
  let ?T = "fst (main env argv)"
  let ?sizes = "concat (map (\<lambda>e. replicate (claimed_count (2 ^ e)) (2 ^ e)) [minExp..<Suc maxExp])"
  have ex: "exit_status (- 1) \<noteq> 0" by (simp add: exit_status_def)
  have goal: "prefix (requests ?T) (?sizes @ ?sizes)
       \<and> (snd (main env argv) = Inr 0 \<longrightarrow>
            transfers ?T = map (\<lambda>n. (n, int n)) (?sizes @ ?sizes))
       \<and> (\<forall>pre ev post. ?T = pre @ ev # post \<and> short ev \<longrightarrow>
            (\<forall>x \<in> set pre. \<not> short x)
            \<and> post = diagnostic ev @ [EExit (- 1)]
            \<and> snd (main env argv) = Inl (- 1))
       \<and> (\<forall>code. snd (main env argv) = Inl code \<longrightarrow>
            code = - 1 \<and> ?T \<noteq> [] \<and> last ?T = EExit (- 1))"
  proof (cases "3 \<le> length argv")
    case True
    have "\<not> short ev" if "[EPrintf UsageAbout, EPrintf UsageLine, EExit (- 1)] = pre @ ev # post"
      for pre ev post
    proof -
      have "ev \<in> set (pre @ ev # post)" by simp
      with that have "ev \<in> set [EPrintf UsageAbout, EPrintf UsageLine, EExit (- 1)]"
        by (simp only:)
      then show ?thesis by auto
    qed
    then show ?thesis unfolding main_usage [OF True] by auto
  next
    case False
    let ?f = "if length argv = 2 then argv ! 1 else ''/tmp/benchmark.tmp''"
    let ?plan = "plan_write ?f (Some ''With O_DIRECT|O_SYNC'') {O_DIRECT, O_SYNC}
      @ plan_read ?f (Some ''With O_DIRECT|O_SYNC'') {O_DIRECT, O_SYNC}"
    note f = main_follows [OF False, of env]
    have rp: "requests ?plan = ?sizes @ ?sizes"
      by (simp only: requests_append plan_write_requests plan_read_requests)
    from follows_requests [OF f]
    have req: "prefix (requests ?T) (?sizes @ ?sizes)"
      and req': "\<And>u. snd (main env argv) = Inr u \<Longrightarrow> requests ?T = ?sizes @ ?sizes"
      unfolding rp by blast+
    have ok: "\<not> short ev" if "ev \<in> set ?T" and "succeeded ev" for ev
    proof (cases ev)
      case (EPread fd n off r)
      with that(1) have mem: "EPread fd n off r \<in> set ?T" by simp
      from pread_requested [OF mem] set_mono_prefix [OF req]
      have "n \<in> set (?sizes @ ?sizes)" by blast
      then obtain e where e: "e \<le> maxExp" and n: "n = 2 ^ e" by auto
      from main_answers [of env argv] mem obtain k where "r = pread_res env k" by blast
      with contract have b: "- 1 \<le> r" "r < 2 ^ 32" by simp_all
      from that(2) EPread have "(word_of_int r :: u32) = word_of_nat (2 ^ e)"
        unfolding n by simp
      with stored_result [OF e b] have "r = 2 ^ e" by simp
      with EPread n show ?thesis by simp
    next
      case (EPwrite fd n off r)
      with that(2) show ?thesis by simp
    qed simp_all
    show ?thesis
    proof (cases "snd (main env argv)")
      case (Inr u)
      with f have "list_all succeeded ?T" by (simp add: completed_def)
      then have ns: "\<forall>ev \<in> set ?T. \<not> short ev"
        using ok by (auto simp add: list_all_iff)
      have tr: "transfers ?T = map (\<lambda>n. (n, int n)) (?sizes @ ?sizes)"
        using transfers_of_requests [OF ns] req' [OF Inr] by (simp only:)
      have nd: "\<not> short ev" if "?T = pre @ ev # post" for pre ev post
      proof -
        have "ev \<in> set (pre @ ev # post)" by simp
        with that have "ev \<in> set ?T" by (simp only:)
        with ns show ?thesis by blast
      qed
      from req tr nd Inr show ?thesis by auto
    next
      case (Inl code)
      with f have code: "code = - 1" and ab: "aborted ?T ?plan" by simp_all
      from aborted_decomp [OF ab] obtain pre0 bad
        where d: "?T = pre0 @ bad # diagnostic bad @ [EExit (- 1)]"
          "list_all succeeded pre0" "\<not> succeeded bad"
        by blast
      have p0: "\<forall>x \<in> set pre0. \<not> short x"
      proof
        fix x assume x: "x \<in> set pre0"
        then have "x \<in> set (pre0 @ bad # diagnostic bad @ [EExit (- 1)])" by simp
        then have "x \<in> set ?T" by (simp only: d(1) [symmetric])
        moreover from d(2) x have "succeeded x" by (simp add: list_all_iff)
        ultimately show "\<not> short x" by (rule ok)
      qed
      have sp: "(\<forall>x \<in> set pre. \<not> short x) \<and> post = diagnostic ev @ [EExit (- 1)]"
        if "?T = pre @ ev # post \<and> short ev" for pre ev post
      proof -
        from that have eq: "pre @ ev # post = pre0 @ bad # diagnostic bad @ [EExit (- 1)]"
          and sh: "short ev" by (simp_all only: d(1) [symmetric])
        from split_at_unique [where P = short, OF eq sh p0 diagnostic_not_short [of bad]]
        have "pre = pre0" "ev = bad" "post = diagnostic bad @ [EExit (- 1)]" by blast+
        with p0 show ?thesis by simp
      qed
      have l: "?T \<noteq> [] \<and> last ?T = EExit (- 1)"
        by (subst (1 2) d(1)) simp
      from req sp l Inl code show ?thesis by auto
    qed
  qed
  with ex show ?thesis unfolding Let_def by blast
qed

lemma transfer_sizes_bounds: "\<forall>x \<in> set (transfer_sizes e). 0 \<le> x \<and> x < 2 ^ 32"
proof (induction "Suc maxExp - e" arbitrary: e)
  case 0
  then have "\<not> e \<le> maxExp" by simp
  then show ?case by (subst transfer_sizes.simps) simp
next
  case (Suc n)
  from Suc.hyps(2) have le: "e \<le> maxExp" and n: "n = Suc maxExp - Suc e" by simp_all
  have "int (unat (push_bit e 1 :: u32)) < 2 ^ 32"
    using unsigned_less [of "push_bit e 1 :: u32", where ?'a = int] by simp
  with Suc.hyps(1) [OF n] show ?case
    unfolding transfer_sizes_step [OF le] by (auto simp del: push_bit_of_1)
qed

lemma size_of_turn_bounds: "- 1 \<le> size_of_turn k \<and> size_of_turn k < 2 ^ 32"
proof (cases "k < length (transfer_sizes minExp)")
  case True
  then have "transfer_sizes minExp ! k \<in> set (transfer_sizes minExp)" by simp
  with transfer_sizes_bounds [of minExp]
  have "0 \<le> transfer_sizes minExp ! k \<and> transfer_sizes minExp ! k < 2 ^ 32" by blast
  with True show ?thesis by (simp add: size_of_turn_def)
next
  case False
  then show ?thesis by (simp add: size_of_turn_def)
qed

theorem repetitions_complete_or_abort_witness:
  "(\<forall>k. - 1 \<le> pread_res obliging k \<and> pread_res obliging k < 2 ^ 32)
   \<and> snd (main obliging [''Benchmark'']) = Inr 0
   \<and> transfers (fst (main obliging [''Benchmark'']))
       = map (\<lambda>n. (n, int n))
           (concat (map (\<lambda>e. replicate (claimed_count (2 ^ e)) (2 ^ e)) [minExp..<Suc maxExp])
            @ concat (map (\<lambda>e. replicate (claimed_count (2 ^ e)) (2 ^ e)) [minExp..<Suc maxExp]))
   \<and> (\<forall>k. - 1 \<le> pread_res ((steady 512)\<lparr>pwrite_res := (\<lambda>k. if k = 1 then 100 else 512)\<rparr>) k
          \<and> pread_res ((steady 512)\<lparr>pwrite_res := (\<lambda>k. if k = 1 then 100 else 512)\<rparr>) k < 2 ^ 32)
   \<and> main ((steady 512)\<lparr>pwrite_res := (\<lambda>k. if k = 1 then 100 else 512)\<rparr>) [''Benchmark'']
       = ([EPrintf (WriteBanner ''/tmp/benchmark.tmp''),
           EPrintf (ExtraComment ''With O_DIRECT|O_SYNC''), ESetlocale, EPrintf WriteColumns,
           EMemalign 512 268435456 0,
           EOpen ''/tmp/benchmark.tmp'' {O_WRONLY, O_CREAT, O_DIRECT, O_SYNC} 3,
           EPwrite 3 512 0 512, EFsync 3 0, EPwrite 3 512 512 100,
           EPerror ''Write'', EExit (- 1)], Inl (- 1))
   \<and> short (EPwrite 3 512 512 100)
   \<and> diagnostic (EPwrite 3 512 512 100) @ [EExit (- 1)] = [EPerror ''Write'', EExit (- 1)]
   \<and> exit_status (- 1) = 255"
proof -
  let ?env = "(steady 512)\<lparr>pwrite_res := (\<lambda>k. if k = 1 then 100 else 512)\<rparr>"
  let ?pre = "[EPrintf (WriteBanner ''/tmp/benchmark.tmp''),
           EPrintf (ExtraComment ''With O_DIRECT|O_SYNC''), ESetlocale, EPrintf WriteColumns,
           EMemalign 512 268435456 0,
           EOpen ''/tmp/benchmark.tmp'' {O_WRONLY, O_CREAT, O_DIRECT, O_SYNC} 3,
           EPwrite 3 512 0 512, EFsync 3 0]"
  have c1: "\<forall>k. - 1 \<le> pread_res obliging k \<and> pread_res obliging k < 2 ^ 32"
    using size_of_turn_bounds by (simp add: obliging_def)
  have fin: "snd (main obliging [''Benchmark'']) = Inr 0"
    by (rule main_completes) simp_all
  from repetitions_complete_or_abort [OF c1, of "[''Benchmark'']"] fin
  have tr: "transfers (fst (main obliging [''Benchmark'']))
       = map (\<lambda>n. (n, int n))
           (concat (map (\<lambda>e. replicate (claimed_count (2 ^ e)) (2 ^ e)) [minExp..<Suc maxExp])
            @ concat (map (\<lambda>e. replicate (claimed_count (2 ^ e)) (2 ^ e)) [minExp..<Suc maxExp]))"
    unfolding Let_def by blast
  have c2: "\<forall>k. - 1 \<le> pread_res ?env k \<and> pread_res ?env k < 2 ^ 32"
    by (simp add: steady_def)
  have t: "fst (main ?env [''Benchmark''])
      = ?pre @ EPwrite 3 512 512 100 # [EPerror ''Write'', EExit (- 1)]"
    by (simp add: minExp_def maxExp_def maxSize_def steady_def write_count_def
      smallBigThreshold_def smallCount_def
      main_def Let_def benchmark_write_def posix_memalign_def write_intro_def
      write_sizes.simps [of _ _ _ 9] write_size_def sys_open_def
      write_loop.simps write_once_def rdtsc_def pwrite_def
      fsync_def no_calls_def insert_commute)
  have sh: "short (EPwrite 3 512 512 100)" by simp
  from repetitions_complete_or_abort [OF c2, of "[''Benchmark'']"] t sh
  have r: "snd (main ?env [''Benchmark'']) = Inl (- 1)" by blast
  have m: "main ?env [''Benchmark'']
       = ([EPrintf (WriteBanner ''/tmp/benchmark.tmp''),
           EPrintf (ExtraComment ''With O_DIRECT|O_SYNC''), ESetlocale, EPrintf WriteColumns,
           EMemalign 512 268435456 0,
           EOpen ''/tmp/benchmark.tmp'' {O_WRONLY, O_CREAT, O_DIRECT, O_SYNC} 3,
           EPwrite 3 512 0 512, EFsync 3 0, EPwrite 3 512 512 100,
           EPerror ''Write'', EExit (- 1)], Inl (- 1))"
    using t r by (cases "main ?env [''Benchmark'']") simp
  have x: "diagnostic (EPwrite 3 512 512 100) @ [EExit (- 1)] = [EPerror ''Write'', EExit (- 1)]
      \<and> exit_status (- 1) = 255"
    by (simp add: exit_status_def)
  from c1 fin tr c2 m sh x show ?thesis by (intro conjI) blast+
qed

end
